theory Spec2Isabelle
  imports Main "HOL-Library.Word" "HOL-Library.Monad_Syntax" "HOL-Library.Sublist"
begin

unbundle bit_operations_syntax

section \<open>Data model\<close>

text \<open>
  A \<open>Node\<close> is the C struct of the node arrays: \<open>prod\<close> is a C \<open>int\<close>, \<open>left\<close> and
  \<open>right\<close> are C \<open>short\<close>s. The functions below only compare these fields and use them
  as indices, so they are integers here. A negative \<open>left\<close> marks a terminal, a negative
  \<open>right\<close> a unary node.
\<close>

record Node =
  prod :: int
  left :: int
  right :: int

text \<open>
  A bitset is an array of 64-bit words (\<open>uint64_t *\<close>). Arrays that the C code reaches
  through a pointer are lists; a read or a write outside the list is the value \<open>None\<close>.
\<close>

type_synonym bitset = "64 word list"

definition rd :: "'a list \<Rightarrow> int \<Rightarrow> 'a option" where
  "rd xs i = (if 0 \<le> i \<and> nat i < length xs then Some (xs ! nat i) else None)"

subsection \<open>Bit macros\<close>

text \<open>
  Modelled from the spec: the header \<open>macros.h\<close> (BITNSLOTS, SETBIT, CLEARBIT, TESTBIT) is
  not among the sources. The spec describes them as set, clear and test of the bit at global
  index \<open>b\<close> of an array of 64-bit words; \<open>off\<close> is the word offset of the row that the
  C code passes as \<open>&matrix[off]\<close>.
\<close>

definition BITNSLOTS :: "nat \<Rightarrow> nat" where
  "BITNSLOTS nb = (nb + 63) div 64"

definition SETBIT :: "bitset \<Rightarrow> nat \<Rightarrow> nat \<Rightarrow> bitset option" where
  "SETBIT a off b =
     (if off + b div 64 < length a
      then Some (a[off + b div 64 := (a ! (off + b div 64)) OR push_bit (b mod 64) 1])
      else None)"

definition CLEARBIT :: "bitset \<Rightarrow> nat \<Rightarrow> nat \<Rightarrow> bitset option" where
  "CLEARBIT a off b =
     (if off + b div 64 < length a
      then Some (a[off + b div 64 := (a ! (off + b div 64)) AND NOT (push_bit (b mod 64) 1)])
      else None)"

definition TESTBIT :: "bitset \<Rightarrow> nat \<Rightarrow> nat \<Rightarrow> bool option" where
  "TESTBIT a off b =
     (if off + b div 64 < length a
      then Some (bit (a ! (off + b div 64)) (b mod 64))
      else None)"

section \<open>The fast tree kernel\<close>

text \<open>
  \<open>fasttreekernel\<close> is three nested loops. The innermost one marks, in row \<open>j\<close>, the run of
  nodes of \<open>a\<close> that carry the production of \<open>b[j]\<close>, starting at \<open>ii\<close>.
\<close>

function fasttreekernel_inner ::
  "Node list \<Rightarrow> Node list \<Rightarrow> nat \<Rightarrow> nat \<Rightarrow> nat \<Rightarrow> nat \<Rightarrow> bitset \<Rightarrow> bitset option" where
  "fasttreekernel_inner a b alen SLOTS j ii matrix =
     (if ii < length a \<and> j < length b then
        (if prod (a ! ii) = prod (b ! j) then
           (case SETBIT matrix (j * SLOTS) ii of
              None \<Rightarrow> None
            | Some matrix' \<Rightarrow>
                if ii + 1 \<ge> alen then Some matrix'
                else fasttreekernel_inner a b alen SLOTS j (ii + 1) matrix')
         else Some matrix)
      else None)"
  by pat_completeness auto
termination
  by (relation "measure (\<lambda>(a, b, alen, SLOTS, j, ii, matrix). alen - ii)") auto

declare fasttreekernel_inner.simps [simp del]

text \<open>
  The middle loop runs while \<open>a[i].prod == b[j].prod\<close>. It yields the value of \<open>j\<close> it
  stops at: the C function returns from inside this loop when \<open>j\<close> reaches \<open>blen\<close>.
\<close>

function fasttreekernel_block ::
  "Node list \<Rightarrow> Node list \<Rightarrow> nat \<Rightarrow> nat \<Rightarrow> nat \<Rightarrow> nat \<Rightarrow> nat \<Rightarrow> bitset
    \<Rightarrow> (nat \<times> bitset) option" where
  "fasttreekernel_block a b alen blen SLOTS i j matrix =
     (if i < length a \<and> j < length b then
        (if prod (a ! i) = prod (b ! j) then
           (case fasttreekernel_inner a b alen SLOTS j i matrix of
              None \<Rightarrow> None
            | Some matrix' \<Rightarrow>
                if j + 1 \<ge> blen then Some (j + 1, matrix')
                else fasttreekernel_block a b alen blen SLOTS i (j + 1) matrix')
         else Some (j, matrix))
      else None)"
  by pat_completeness auto
termination
  by (relation "measure (\<lambda>(a, b, alen, blen, SLOTS, i, j, matrix). blen - j)") auto

declare fasttreekernel_block.simps [simp del]

lemma fasttreekernel_block_advances:
  "fasttreekernel_block a b alen blen SLOTS i j matrix = Some (j', matrix') \<Longrightarrow> j \<le> j'"
proof (induction a b alen blen SLOTS i j matrix rule: fasttreekernel_block.induct)
  case (1 a b alen blen SLOTS i j matrix)
  show ?case
    using "1.prems" "1.IH"
    by (subst (asm) fasttreekernel_block.simps) (fastforce split: if_splits option.splits)
qed

lemma fasttreekernel_block_strict:
  assumes "fasttreekernel_block a b alen blen SLOTS i j matrix = Some (j', matrix')"
    and "prod (a ! i) = prod (b ! j)"
  shows "j < j'"
  using assms
  by (subst (asm) fasttreekernel_block.simps)
    (auto split: if_splits option.splits dest: fasttreekernel_block_advances)

text \<open>The outer \<open>while True\<close> loop.\<close>

function fasttreekernel_loop ::
  "Node list \<Rightarrow> Node list \<Rightarrow> nat \<Rightarrow> nat \<Rightarrow> nat \<Rightarrow> nat \<Rightarrow> nat \<Rightarrow> bitset \<Rightarrow> bitset option" where
  "fasttreekernel_loop a b alen blen SLOTS i j matrix =
     (if i < length a \<and> j < length b then
        (if prod (a ! i) < prod (b ! j) then
           (if i + 1 \<ge> alen then Some matrix
            else fasttreekernel_loop a b alen blen SLOTS (i + 1) j matrix)
         else if prod (a ! i) > prod (b ! j) then
           (if j + 1 \<ge> blen then Some matrix
            else fasttreekernel_loop a b alen blen SLOTS i (j + 1) matrix)
         else
           (case fasttreekernel_block a b alen blen SLOTS i j matrix of
              None \<Rightarrow> None
            | Some (j', matrix') \<Rightarrow>
                if j' \<ge> blen then Some matrix'
                else fasttreekernel_loop a b alen blen SLOTS i j' matrix'))
      else None)"
  by pat_completeness auto
termination
proof (relation "measure (\<lambda>(a, b, alen, blen, SLOTS, i, j, matrix). (alen - i) + (blen - j))",
    goal_cases)
  case 1
  show ?case by simp
next
  case (2 a b alen blen SLOTS i j matrix)
  then show ?case by simp
next
  case (3 a b alen blen SLOTS i j matrix)
  then show ?case by simp
next
  case (4 a b alen blen SLOTS i j matrix x2 j' matrix')
  then have "fasttreekernel_block a b alen blen SLOTS i j matrix = Some (j', matrix')"
    and "prod (a ! i) = prod (b ! j)"
    by simp_all
  from fasttreekernel_block_strict [OF this] 4 show ?case by auto
qed

declare fasttreekernel_loop.simps [simp del]

definition fasttreekernel ::
  "Node list \<Rightarrow> Node list \<Rightarrow> nat \<Rightarrow> nat \<Rightarrow> bitset \<Rightarrow> nat \<Rightarrow> bitset option" where
  "fasttreekernel a b alen blen matrix SLOTS =
     fasttreekernel_loop a b alen blen SLOTS 0 0 matrix"


subsection \<open>Correctness of the kernel\<close>

definition cell :: "bitset \<Rightarrow> nat \<Rightarrow> nat \<Rightarrow> nat \<Rightarrow> bool" where
  "cell m SLOTS j i = bit (m ! (j * SLOTS + i div 64)) (i mod 64)"

lemma row_le:
  assumes "j < blen" "blen * SLOTS \<le> n"
  shows "(j + 1) * SLOTS \<le> (n::nat)"
proof -
  from assms(1) have "j + 1 \<le> blen" by simp
  then have "(j + 1) * SLOTS \<le> blen * SLOTS" by (rule mult_le_mono1)
  with assms(2) show ?thesis by simp
qed

lemma row_index_less:
  assumes "i < 64 * SLOTS" "(j + 1) * SLOTS \<le> n"
  shows "j * SLOTS + i div 64 < (n::nat)"
proof -
  from assms(1) have "i div 64 < SLOTS" by (simp add: div_less_iff_less_mult mult.commute)
  with assms(2) show ?thesis by simp
qed

lemma row_index_inj:
  assumes "i < 64 * (SLOTS::nat)" "i' < 64 * SLOTS"
    and "j * SLOTS + i div 64 = j' * SLOTS + i' div 64"
  shows "j = j' \<and> i div 64 = i' div 64"
proof -
  from assms(1) have a: "i div 64 < SLOTS" by (simp add: div_less_iff_less_mult mult.commute)
  from assms(2) have b: "i' div 64 < SLOTS" by (simp add: div_less_iff_less_mult mult.commute)
  have "(j * SLOTS + i div 64) div SLOTS = j" using a by simp
  moreover have "(j' * SLOTS + i' div 64) div SLOTS = j'" using b by simp
  ultimately have "j = j'" using assms(3) by simp
  with assms(3) show ?thesis by simp
qed

lemma TESTBIT_cell:
  assumes "i < 64 * SLOTS" "(j + 1) * SLOTS \<le> length m"
  shows "TESTBIT m (j * SLOTS) i = Some (cell m SLOTS j i)"
  using row_index_less [OF assms] by (simp add: TESTBIT_def cell_def)

lemma SETBIT_cell:
  assumes "i < 64 * SLOTS" "(j + 1) * SLOTS \<le> length m"
  shows "\<exists>m'. SETBIT m (j * SLOTS) i = Some m' \<and> length m' = length m \<and>
    (\<forall>j' i'. i' < 64 * SLOTS \<longrightarrow> (j' + 1) * SLOTS \<le> length m \<longrightarrow>
       cell m' SLOTS j' i' = ((j' = j \<and> i' = i) \<or> cell m SLOTS j' i'))"
proof -
  let ?k = "j * SLOTS + i div 64"
  let ?m' = "m[?k := (m ! ?k) OR push_bit (i mod 64) 1]"
  have k: "?k < length m" by (rule row_index_less [OF assms])
  then have s: "SETBIT m (j * SLOTS) i = Some ?m'" by (simp add: SETBIT_def)
  have "cell ?m' SLOTS j' i' = ((j' = j \<and> i' = i) \<or> cell m SLOTS j' i')"
    if h: "i' < 64 * SLOTS" "(j' + 1) * SLOTS \<le> length m" for j' i'
  proof (cases "j' * SLOTS + i' div 64 = ?k")
    case True
    with row_index_inj [OF h(1) assms(1)] have e: "j' = j" "i' div 64 = i div 64" by auto
    have "(i' = i) = (i' mod 64 = i mod 64)"
      using e(2) by (metis div_mult_mod_eq)
    then show ?thesis using True k e
      by (auto simp: cell_def bit_simps)
  next
    case False
    then have "\<not> (j' = j \<and> i' = i)" by auto
    with False show ?thesis by (auto simp: cell_def)
  qed
  with s show ?thesis by auto
qed

definition run :: "Node list \<Rightarrow> Node list \<Rightarrow> nat \<Rightarrow> nat \<Rightarrow> nat \<Rightarrow> nat \<Rightarrow> bool" where
  "run a b alen j ii i' =
     (ii \<le> i' \<and> i' < alen \<and> (\<forall>l. ii \<le> l \<and> l \<le> i' \<longrightarrow> prod (a ! l) = prod (b ! j)))"

lemma inner_cells:
  assumes "ii < alen" "alen \<le> length a" "j < length b" "alen \<le> 64 * SLOTS"
    "(j + 1) * SLOTS \<le> length m"
  shows "\<exists>m'. fasttreekernel_inner a b alen SLOTS j ii m = Some m' \<and> length m' = length m \<and>
    (\<forall>j' i'. i' < 64 * SLOTS \<longrightarrow> (j' + 1) * SLOTS \<le> length m \<longrightarrow>
       cell m' SLOTS j' i' = (cell m SLOTS j' i' \<or> (j' = j \<and> run a b alen j ii i')))"
  using assms
proof (induction a b alen SLOTS j ii m rule: fasttreekernel_inner.induct)
  case (1 a b alen SLOTS j ii matrix)
  have rng: "ii < length a \<and> j < length b" using "1.prems" by simp
  show ?case
  proof (cases "prod (a ! ii) = prod (b ! j)")
    case False
    then have "\<And>i'. \<not> run a b alen j ii i'" by (auto simp: run_def)
    with False rng show ?thesis
      by (subst fasttreekernel_inner.simps) simp
  next
    case True
    from "1.prems" have "ii < 64 * SLOTS" by simp
    from SETBIT_cell [OF this "1.prems"(5)] obtain m1 where
      m1: "SETBIT matrix (j * SLOTS) ii = Some m1" "length m1 = length matrix"
      and c1: "\<And>j' i'. i' < 64 * SLOTS \<Longrightarrow> (j' + 1) * SLOTS \<le> length matrix \<Longrightarrow>
         cell m1 SLOTS j' i' = ((j' = j \<and> i' = ii) \<or> cell matrix SLOTS j' i')"
      by blast
    show ?thesis
    proof (cases "ii + 1 \<ge> alen")
      case True
      have "run a b alen j ii i' = (i' = ii)" for i'
        using True \<open>prod (a ! ii) = prod (b ! j)\<close> "1.prems"(1)
        by (auto simp: run_def)
      with True \<open>prod (a ! ii) = prod (b ! j)\<close> rng m1 c1 show ?thesis
        by (subst fasttreekernel_inner.simps) auto
    next
      case False
      have "\<exists>m'. fasttreekernel_inner a b alen SLOTS j (ii + 1) m1 = Some m' \<and>
         length m' = length m1 \<and>
         (\<forall>j' i'. i' < 64 * SLOTS \<longrightarrow> (j' + 1) * SLOTS \<le> length m1 \<longrightarrow>
         cell m' SLOTS j' i' = (cell m1 SLOTS j' i' \<or> (j' = j \<and> run a b alen j (ii + 1) i')))"
        using "1.IH" [OF rng True m1(1) False] False "1.prems" m1(2) by simp
      then obtain m2 where m2: "fasttreekernel_inner a b alen SLOTS j (ii + 1) m1 = Some m2"
        "length m2 = length matrix"
        and c2: "\<And>j' i'. i' < 64 * SLOTS \<Longrightarrow> (j' + 1) * SLOTS \<le> length matrix \<Longrightarrow>
         cell m2 SLOTS j' i' = (cell m1 SLOTS j' i' \<or> (j' = j \<and> run a b alen j (ii + 1) i'))"
        using m1(2) by auto
      have r: "run a b alen j ii i' = (i' = ii \<or> run a b alen j (ii + 1) i')" for i'
      proof -
        have "(\<forall>l. ii \<le> l \<and> l \<le> i' \<longrightarrow> prod (a ! l) = prod (b ! j)) =
              (\<forall>l. ii + 1 \<le> l \<and> l \<le> i' \<longrightarrow> prod (a ! l) = prod (b ! j))" if "ii \<le> i'"
          using \<open>prod (a ! ii) = prod (b ! j)\<close> by (metis Suc_eq_plus1 Suc_leI le_neq_implies_less add_leD1)
        then show ?thesis using False "1.prems"(1)
          by (auto simp: run_def)
      qed
      have "fasttreekernel_inner a b alen SLOTS j ii matrix = Some m2"
        using rng True m1 False m2 by (subst fasttreekernel_inner.simps) simp
      with m2 c1 c2 r show ?thesis by auto
    qed
  qed
qed


definition prods_sorted :: "Node list \<Rightarrow> nat \<Rightarrow> bool" where
  "prods_sorted a alen = (\<forall>k l. k \<le> l \<and> l < alen \<longrightarrow> prod (a ! k) \<le> prod (a ! l))"

lemma prods_sorted_take:
  assumes "alen \<le> length a" "sorted (map prod (take alen a))"
  shows "prods_sorted a alen"
  unfolding prods_sorted_def
proof (intro allI impI)
  fix k l assume h: "k \<le> l \<and> l < alen"
  with assms(1) have "l < length (map prod (take alen a))" by simp
  with assms(2) h have "map prod (take alen a) ! k \<le> map prod (take alen a) ! l"
    by (simp add: sorted_iff_nth_mono)
  with h assms(1) show "prod (a ! k) \<le> prod (a ! l)" by simp
qed

lemma run_sorted:
  assumes "prods_sorted a alen" "\<forall>k<i. prod (a ! k) < prod (b ! j)"
    "prod (a ! i) = prod (b ! j)" "i < alen"
  shows "run a b alen j i i' = (i' < alen \<and> prod (a ! i') = prod (b ! j))"
proof
  assume "run a b alen j i i'"
  then show "i' < alen \<and> prod (a ! i') = prod (b ! j)" by (auto simp: run_def)
next
  assume h: "i' < alen \<and> prod (a ! i') = prod (b ! j)"
  have "i \<le> i'"
  proof (rule ccontr)
    assume "\<not> i \<le> i'"
    then have "i' < i" by simp
    with assms(2) h show False by auto
  qed
  moreover have "prod (a ! l) = prod (b ! j)" if "i \<le> l \<and> l \<le> i'" for l
  proof -
    from that h have "i \<le> l \<and> l < alen" "l \<le> i' \<and> i' < alen" by auto
    with assms(1) have "prod (a ! i) \<le> prod (a ! l)" "prod (a ! l) \<le> prod (a ! i')"
      unfolding prods_sorted_def by blast+
    with assms(3) h show ?thesis by simp
  qed
  ultimately show "run a b alen j i i'" using h by (simp add: run_def)
qed

text \<open>Rows below \<open>j\<close> hold the reference matrix; rows from \<open>j\<close> on are still empty.\<close>

definition rows_done ::
  "Node list \<Rightarrow> Node list \<Rightarrow> nat \<Rightarrow> nat \<Rightarrow> nat \<Rightarrow> nat \<Rightarrow> bitset \<Rightarrow> bool" where
  "rows_done a b alen blen SLOTS j m =
     (\<forall>j'<blen. \<forall>k<64 * SLOTS.
        cell m SLOTS j' k = (j' < j \<and> k < alen \<and> prod (a ! k) = prod (b ! j')))"

definition kernel_pre ::
  "Node list \<Rightarrow> Node list \<Rightarrow> nat \<Rightarrow> nat \<Rightarrow> nat \<Rightarrow> nat \<Rightarrow> bool" where
  "kernel_pre a b alen blen SLOTS n =
     (alen \<le> length a \<and> blen \<le> length b \<and> alen \<le> 64 * SLOTS \<and> blen * SLOTS \<le> n \<and>
      prods_sorted a alen \<and> prods_sorted b blen)"

lemma block_rows:
  assumes "kernel_pre a b alen blen SLOTS (length m)" "i < alen" "j < blen"
    "\<forall>k<i. prod (a ! k) < prod (b ! j)" "rows_done a b alen blen SLOTS j m"
  shows "\<exists>j' m'. fasttreekernel_block a b alen blen SLOTS i j m = Some (j', m') \<and>
    length m' = length m \<and> j' \<le> blen \<and> rows_done a b alen blen SLOTS j' m' \<and>
    (j' < blen \<longrightarrow> (\<forall>k<i. prod (a ! k) < prod (b ! j')))"
  using assms
proof (induction a b alen blen SLOTS i j m rule: fasttreekernel_block.induct)
  case (1 a b alen blen SLOTS i j matrix)
  have pre: "alen \<le> length a" "blen \<le> length b" "alen \<le> 64 * SLOTS"
    "blen * SLOTS \<le> length matrix" "prods_sorted a alen" "prods_sorted b blen"
    using "1.prems"(1) by (simp_all add: kernel_pre_def)
  have rng: "i < length a \<and> j < length b" using pre(1,2) "1.prems"(2,3) by simp
  show ?case
  proof (cases "prod (a ! i) = prod (b ! j)")
    case False
    with rng have "fasttreekernel_block a b alen blen SLOTS i j matrix = Some (j, matrix)"
      by (subst fasttreekernel_block.simps) simp
    moreover have "j \<le> blen" using "1.prems"(3) by simp
    ultimately show ?thesis using "1.prems"(4,5) by blast
  next
    case True
    have rows: "(j' + 1) * SLOTS \<le> length matrix" if "j' < blen" for j'
      using row_le [OF that pre(4)] .
    have jrow: "(j + 1) * SLOTS \<le> length matrix"
      by (rule rows [OF "1.prems"(3)])
    have jb: "j < length b" using rng by simp
    from inner_cells [OF "1.prems"(2) pre(1) jb pre(3) jrow] obtain m1 where
      m1: "fasttreekernel_inner a b alen SLOTS j i matrix = Some m1" "length m1 = length matrix"
      and c1: "\<forall>j' i'. i' < 64 * SLOTS \<longrightarrow> (j' + 1) * SLOTS \<le> length matrix \<longrightarrow>
         cell m1 SLOTS j' i' = (cell matrix SLOTS j' i' \<or> (j' = j \<and> run a b alen j i i'))"
      by blast
    have rs: "run a b alen j i i' = (i' < alen \<and> prod (a ! i') = prod (b ! j))" for i'
      by (rule run_sorted [OF pre(5) "1.prems"(4) True "1.prems"(2)])
    have done1: "rows_done a b alen blen SLOTS (j + 1) m1"
      unfolding rows_done_def
    proof (intro allI impI)
      fix j' k assume h: "j' < blen" "k < 64 * SLOTS"
      from "1.prems"(5) h have "cell matrix SLOTS j' k =
        (j' < j \<and> k < alen \<and> prod (a ! k) = prod (b ! j'))"
        by (simp add: rows_done_def)
      moreover from c1 h(2) rows [OF h(1)] have "cell m1 SLOTS j' k =
        (cell matrix SLOTS j' k \<or> (j' = j \<and> run a b alen j i k))" by blast
      moreover have "j' < j + 1 \<longleftrightarrow> j' < j \<or> j' = j" by auto
      ultimately
      show "cell m1 SLOTS j' k = (j' < j + 1 \<and> k < alen \<and> prod (a ! k) = prod (b ! j'))"
        unfolding rs by blast
    qed
    show ?thesis
    proof (cases "j + 1 \<ge> blen")
      case True
      with "1.prems"(3) have e: "j + 1 = blen" by simp
      have "fasttreekernel_block a b alen blen SLOTS i j matrix = Some (j + 1, m1)"
        using True \<open>prod (a ! i) = prod (b ! j)\<close> rng m1(1)
        by (subst fasttreekernel_block.simps) simp
      with m1(2) done1 e show ?thesis by simp
    next
      case False
      have lt: "\<forall>k<i. prod (a ! k) < prod (b ! (j + 1))"
      proof (intro allI impI)
        fix k assume "k < i"
        with "1.prems"(4) have "prod (a ! k) < prod (b ! j)" by simp
        moreover from False have "j \<le> j + 1 \<and> j + 1 < blen" by simp
        with pre(6) have "prod (b ! j) \<le> prod (b ! (j + 1))"
          unfolding prods_sorted_def by blast
        ultimately show "prod (a ! k) < prod (b ! (j + 1))" by simp
      qed
      have pre1: "kernel_pre a b alen blen SLOTS (length m1)"
        using "1.prems"(1) m1(2) by simp
      from False have j1: "j + 1 < blen" by simp
      from "1.IH" [OF rng True m1(1) False pre1 "1.prems"(2) j1 lt done1]
      obtain j' m' where r: "fasttreekernel_block a b alen blen SLOTS i (j + 1) m1 = Some (j', m')"
        "length m' = length m1" "j' \<le> blen" "rows_done a b alen blen SLOTS j' m'"
        "j' < blen \<longrightarrow> (\<forall>k<i. prod (a ! k) < prod (b ! j'))"
        by blast
      have "fasttreekernel_block a b alen blen SLOTS i j matrix = Some (j', m')"
        using rng True m1(1) False r(1) by (subst fasttreekernel_block.simps) simp
      with r(2-) m1(2) show ?thesis by simp
    qed
  qed
qed


lemma loop_rows:
  assumes "kernel_pre a b alen blen SLOTS (length m)" "i < alen" "j < blen"
    "\<forall>k<i. prod (a ! k) < prod (b ! j)" "rows_done a b alen blen SLOTS j m"
  shows "\<exists>m'. fasttreekernel_loop a b alen blen SLOTS i j m = Some m' \<and>
    length m' = length m \<and> rows_done a b alen blen SLOTS blen m'"
  using assms
proof (induction a b alen blen SLOTS i j m rule: fasttreekernel_loop.induct)
  case (1 a b alen blen SLOTS i j matrix)
  have pre: "alen \<le> length a" "blen \<le> length b" "alen \<le> 64 * SLOTS"
    "blen * SLOTS \<le> length matrix" "prods_sorted a alen" "prods_sorted b blen"
    using "1.prems"(1) by (simp_all add: kernel_pre_def)
  have rng: "i < length a \<and> j < length b" using pre(1,2) "1.prems"(2,3) by simp
  have asort: "prod (a ! k) \<le> prod (a ! l)" if "k \<le> l" "l < alen" for k l
    using pre(5) that unfolding prods_sorted_def by blast
  have bsort: "prod (b ! k) \<le> prod (b ! l)" if "k \<le> l" "l < blen" for k l
    using pre(6) that unfolding prods_sorted_def by blast
  have old: "cell matrix SLOTS j' k = (j' < j \<and> k < alen \<and> prod (a ! k) = prod (b ! j'))"
    if "j' < blen" "k < 64 * SLOTS" for j' k
    using "1.prems"(5) that by (simp add: rows_done_def)
  consider (less) "prod (a ! i) < prod (b ! j)" | (greater) "prod (a ! i) > prod (b ! j)"
    | (equal) "prod (a ! i) = prod (b ! j)"
    by linarith
  then show ?case
  proof cases
    case less
    show ?thesis
    proof (cases "i + 1 \<ge> alen")
      case True
      have "fasttreekernel_loop a b alen blen SLOTS i j matrix = Some matrix"
        using rng less True by (subst fasttreekernel_loop.simps) simp
      moreover have "rows_done a b alen blen SLOTS blen matrix"
        unfolding rows_done_def
      proof (intro allI impI)
        fix j' k assume h: "j' < blen" "k < 64 * SLOTS"
        have "\<not> (k < alen \<and> prod (a ! k) = prod (b ! j'))" if "j \<le> j'"
        proof
          assume e: "k < alen \<and> prod (a ! k) = prod (b ! j')"
          with True have "k \<le> i" by simp
          from asort [OF this "1.prems"(2)] less bsort [OF that h(1)] e
          show False by simp
        qed
        with old [OF h] h(1)
        show "cell matrix SLOTS j' k = (j' < blen \<and> k < alen \<and> prod (a ! k) = prod (b ! j'))"
          by (cases "j' < j") auto
      qed
      ultimately show ?thesis by simp
    next
      case False
      have lt: "\<forall>k<i + 1. prod (a ! k) < prod (b ! j)"
        using "1.prems"(4) less by (auto simp: less_Suc_eq)
      from False have i1: "i + 1 < alen" by simp
      from "1.IH"(1) [OF rng less False "1.prems"(1) i1 "1.prems"(3) lt "1.prems"(5)]
      obtain m' where r: "fasttreekernel_loop a b alen blen SLOTS (i + 1) j matrix = Some m'"
        "length m' = length matrix" "rows_done a b alen blen SLOTS blen m'"
        by blast
      have "fasttreekernel_loop a b alen blen SLOTS i j matrix = Some m'"
        using rng less False r(1) by (subst fasttreekernel_loop.simps) simp
      with r(2-) show ?thesis by simp
    qed
  next
    case greater
    then have nl: "\<not> prod (a ! i) < prod (b ! j)" by simp
    have norow: "\<not> (k < alen \<and> prod (a ! k) = prod (b ! j))" for k
    proof
      assume e: "k < alen \<and> prod (a ! k) = prod (b ! j)"
      show False
      proof (cases "k < i")
        case True
        with "1.prems"(4) e show False by auto
      next
        case False
        then have "i \<le> k" by simp
        from asort [OF this] e greater show False by simp
      qed
    qed
    have done1: "rows_done a b alen blen SLOTS (j + 1) matrix"
      unfolding rows_done_def
    proof (intro allI impI)
      fix j' k assume h: "j' < blen" "k < 64 * SLOTS"
      from old [OF h] norow [of k]
      show "cell matrix SLOTS j' k = (j' < j + 1 \<and> k < alen \<and> prod (a ! k) = prod (b ! j'))"
        by (cases "j' = j") auto
    qed
    show ?thesis
    proof (cases "j + 1 \<ge> blen")
      case True
      with "1.prems"(3) have e: "j + 1 = blen" by simp
      have "fasttreekernel_loop a b alen blen SLOTS i j matrix = Some matrix"
        using rng nl greater True by (subst fasttreekernel_loop.simps) simp
      with done1 e show ?thesis by simp
    next
      case False
      then have j1: "j + 1 < blen" by simp
      have lt: "\<forall>k<i. prod (a ! k) < prod (b ! (j + 1))"
      proof (intro allI impI)
        fix k assume "k < i"
        with "1.prems"(4) have "prod (a ! k) < prod (b ! j)" by simp
        with bsort [OF _ j1, of j] show "prod (a ! k) < prod (b ! (j + 1))" by simp
      qed
      from "1.IH"(2) [OF rng nl greater False "1.prems"(1,2) j1 lt done1]
      obtain m' where r: "fasttreekernel_loop a b alen blen SLOTS i (j + 1) matrix = Some m'"
        "length m' = length matrix" "rows_done a b alen blen SLOTS blen m'"
        by blast
      have "fasttreekernel_loop a b alen blen SLOTS i j matrix = Some m'"
        using rng nl greater False r(1) by (subst fasttreekernel_loop.simps) simp
      with r(2-) show ?thesis by simp
    qed
  next
    case equal
    then have nl: "\<not> prod (a ! i) < prod (b ! j)" and ng: "\<not> prod (a ! i) > prod (b ! j)"
      by simp_all
    from block_rows [OF "1.prems"] obtain j' m1 where
      b1: "fasttreekernel_block a b alen blen SLOTS i j matrix = Some (j', m1)"
      "length m1 = length matrix" "j' \<le> blen" "rows_done a b alen blen SLOTS j' m1"
      "j' < blen \<longrightarrow> (\<forall>k<i. prod (a ! k) < prod (b ! j'))"
      by blast
    show ?thesis
    proof (cases "j' \<ge> blen")
      case True
      with b1(3) have e: "j' = blen" by simp
      have "fasttreekernel_loop a b alen blen SLOTS i j matrix = Some m1"
        using rng nl ng b1(1) True by (subst fasttreekernel_loop.simps) simp
      with b1(2,4) e show ?thesis by simp
    next
      case False
      then have j1: "j' < blen" by simp
      with b1(5) have lt: "\<forall>k<i. prod (a ! k) < prod (b ! j')" by simp
      have pre1: "kernel_pre a b alen blen SLOTS (length m1)"
        using "1.prems"(1) b1(2) by simp
      from "1.IH"(3) [OF rng nl ng b1(1) refl False pre1 "1.prems"(2) j1 lt b1(4)]
      obtain m' where r: "fasttreekernel_loop a b alen blen SLOTS i j' m1 = Some m'"
        "length m' = length m1" "rows_done a b alen blen SLOTS blen m'"
        by blast
      have "fasttreekernel_loop a b alen blen SLOTS i j matrix = Some m'"
        using rng nl ng b1(1) False r(1) by (subst fasttreekernel_loop.simps) simp
      with r(2-) b1(2) show ?thesis by simp
    qed
  qed
qed

lemma fasttreekernel_rows:
  assumes "0 < alen" "0 < blen" "alen \<le> length a" "blen \<le> length b"
    and "sorted (map prod (take alen a))" "sorted (map prod (take blen b))"
    and "alen \<le> 64 * SLOTS" "blen * SLOTS \<le> length matrix"
    and "\<forall>k < blen * SLOTS. matrix ! k = 0"
  shows "\<exists>m'. fasttreekernel a b alen blen matrix SLOTS = Some m' \<and>
    length m' = length matrix \<and> rows_done a b alen blen SLOTS blen m'"
proof -
  have pre: "kernel_pre a b alen blen SLOTS (length matrix)"
    using assms prods_sorted_take by (simp add: kernel_pre_def)
  have zero: "rows_done a b alen blen SLOTS 0 matrix"
    unfolding rows_done_def
  proof (intro allI impI)
    fix j' k assume h: "j' < blen" "k < 64 * SLOTS"
    from row_le [OF h(1) le_refl] have "(j' + 1) * SLOTS \<le> blen * SLOTS" .
    from row_index_less [OF h(2) this] assms(9) have "matrix ! (j' * SLOTS + k div 64) = 0"
      by simp
    then show "cell matrix SLOTS j' k = (j' < 0 \<and> k < alen \<and> prod (a ! k) = prod (b ! j'))"
      by (simp add: cell_def)
  qed
  from loop_rows [OF pre assms(1,2) _ zero] obtain m' where
    r: "fasttreekernel_loop a b alen blen SLOTS 0 0 matrix = Some m'"
    "length m' = length matrix" "rows_done a b alen blen SLOTS blen m'"
    by auto
  then show ?thesis by (simp add: fasttreekernel_def)
qed

subsection \<open>Claim C1\<close>

text \<open>
  C1. Let \<open>a\<close> and \<open>b\<close> be the node arrays of two trees (at least one node each), both
  sorted by \<open>prod\<close> in ascending order, and let the first \<open>blen * SLOTS\<close> words of the
  matrix be zero, each row being wide enough for the nodes of \<open>a\<close>. Then
  \<open>fasttreekernel\<close> returns, it writes inside the matrix only, and afterwards bit \<open>i\<close> of
  row \<open>j\<close> is set if and only if \<open>i < alen\<close> and \<open>a[i].prod = b[j].prod\<close>: the result is
  the reference all-pairs matrix.
\<close>

theorem fasttreekernel_reference_matrix:
  assumes "0 < alen" "0 < blen" "alen \<le> length a" "blen \<le> length b"
    and "sorted (map prod (take alen a))" "sorted (map prod (take blen b))"
    and "alen \<le> 64 * SLOTS" "blen * SLOTS \<le> length matrix"
    and "\<forall>k < blen * SLOTS. matrix ! k = 0"
  shows "\<exists>m'. fasttreekernel a b alen blen matrix SLOTS = Some m' \<and>
    length m' = length matrix \<and>
    (\<forall>j<blen. \<forall>i<64 * SLOTS.
       TESTBIT m' (j * SLOTS) i = Some (i < alen \<and> prod (a ! i) = prod (b ! j)))"
proof -
  from fasttreekernel_rows [OF assms] obtain m' where
    r: "fasttreekernel a b alen blen matrix SLOTS = Some m'"
    "length m' = length matrix" "rows_done a b alen blen SLOTS blen m'"
    by auto
  have "TESTBIT m' (j * SLOTS) i = Some (i < alen \<and> prod (a ! i) = prod (b ! j))"
    if h: "j < blen" "i < 64 * SLOTS" for i j
  proof -
    from row_le [OF h(1) assms(8)] r(2) have "(j + 1) * SLOTS \<le> length m'" by simp
    from TESTBIT_cell [OF h(2) this] r(3) h show ?thesis
      by (simp add: rows_done_def)
  qed
  with r(1,2) show ?thesis by simp
qed

theorem fasttreekernel_reference_matrix_witness:
  "\<exists>m'. fasttreekernel
       [\<lparr>prod = 0, left = 1, right = 2\<rparr>, \<lparr>prod = 1, left = -1, right = -1\<rparr>,
        \<lparr>prod = 2, left = -2, right = -1\<rparr>]
       [\<lparr>prod = 0, left = 1, right = 2\<rparr>, \<lparr>prod = 1, left = -1, right = -1\<rparr>,
        \<lparr>prod = 3, left = -2, right = -1\<rparr>]
       3 3 [0, 0, 0] 1 = Some m' \<and>
     length m' = 3 \<and>
     TESTBIT m' 0 0 = Some True \<and> TESTBIT m' 0 1 = Some False \<and>
     TESTBIT m' 1 1 = Some True \<and> TESTBIT m' 2 2 = Some False"
proof -
  let ?a = "[\<lparr>prod = 0, left = 1, right = 2\<rparr>, \<lparr>prod = 1, left = -1, right = -1\<rparr>,
        \<lparr>prod = 2, left = -2, right = -1\<rparr>]"
  let ?b = "[\<lparr>prod = 0, left = 1, right = 2\<rparr>, \<lparr>prod = 1, left = -1, right = -1\<rparr>,
        \<lparr>prod = 3, left = -2, right = -1\<rparr>]"
  have z: "\<forall>k < 3 * 1. [0, 0, 0 :: 64 word] ! k = 0"
    by (simp add: nth_Cons split: nat.split)
  have "\<exists>m'. fasttreekernel ?a ?b 3 3 [0, 0, 0] 1 = Some m' \<and>
    length m' = length [0, 0, 0 :: 64 word] \<and>
    (\<forall>j<3. \<forall>i<64 * 1.
       TESTBIT m' (j * 1) i = Some (i < 3 \<and> prod (?a ! i) = prod (?b ! j)))"
    by (rule fasttreekernel_reference_matrix [OF _ _ _ _ _ _ _ _ z]) simp_all
  then obtain m' where m: "fasttreekernel ?a ?b 3 3 [0, 0, 0] 1 = Some m'"
    "length m' = 3"
    and t: "\<And>i j. j < 3 \<Longrightarrow> i < 64 \<Longrightarrow>
       TESTBIT m' (j * 1) i = Some (i < 3 \<and> prod (?a ! i) = prod (?b ! j))"
    by auto
  from t [of 0 0] t [of 0 1] t [of 1 1] t [of 2 2]
  have "TESTBIT m' 0 0 = Some True \<and> TESTBIT m' 0 1 = Some False \<and>
     TESTBIT m' 1 1 = Some True \<and> TESTBIT m' 2 2 = Some False"
    by simp
  with m show ?thesis by blast
qed



section \<open>Extraction of maximal fragments\<close>

text \<open>
  Node indices come out of \<open>Node\<close> fields and are C integers; \<open>ix\<close> turns one into an
  array position. A negative index points before the array, which is the value \<open>None\<close>.
\<close>

definition ix :: "int \<Rightarrow> nat option" where
  "ix i = (if 0 \<le> i then Some (nat i) else None)"

text \<open>
  Modelled from the spec: \<open>iteratesetbits\<close> of the module \<open>bit\<close> is not among the sources.
  The spec describes an iterator that yields the indices of the set bits in ascending order
  and carries the current word \<open>cur\<close> and its slot \<open>idx\<close> between calls; \<open>-1\<close> ends the
  iteration. \<open>bit_ctz\<close> is the position of the lowest set bit of a word.
\<close>

definition bit_ctz :: "64 word \<Rightarrow> nat" where
  "bit_ctz w = (case find (bit w) [0..<64] of Some k \<Rightarrow> k | None \<Rightarrow> 64)"

function iteratesetbits ::
  "bitset \<Rightarrow> nat \<Rightarrow> nat \<Rightarrow> 64 word \<Rightarrow> nat \<Rightarrow> (int \<times> 64 word \<times> nat) option" where
  "iteratesetbits vec off slots cur idx =
     (if cur = 0 then
        (if idx + 1 \<ge> slots then Some (-1, cur, idx + 1)
         else if off + (idx + 1) < length vec
           then iteratesetbits vec off slots (vec ! (off + (idx + 1))) (idx + 1)
           else None)
      else Some (int (idx * 64 + bit_ctz cur), cur XOR push_bit (bit_ctz cur) 1, idx))"
  by pat_completeness auto
termination
  by (relation "measure (\<lambda>(vec, off, slots, cur, idx). slots - idx)") auto

declare iteratesetbits.simps [simp del]

text \<open>\<open>memset(buf, 0, n * sizeof(uint64_t))\<close>\<close>

definition memset0 :: "bitset \<Rightarrow> nat \<Rightarrow> bitset option" where
  "memset0 buf n = (if n \<le> length buf then Some (replicate n 0 @ drop n buf) else None)"

text \<open>
  \<open>extractat\<close> walks \<open>a\<close> and \<open>b\<close> in parallel from the node pair \<open>(i, j)\<close>. It returns the
  matrix, the result bitset and the C return value. The recursion follows the child indices
  stored in the arrays, so the function is partial: \<open>None\<close> stands for an access outside
  an array and for a recursion that does not end.
\<close>

partial_function (option) extractat ::
  "bitset \<Rightarrow> bitset \<Rightarrow> Node list \<Rightarrow> Node list \<Rightarrow> int \<Rightarrow> int \<Rightarrow> nat
    \<Rightarrow> (bitset \<times> bitset \<times> int) option" where
  "extractat matrix result a b i j SLOTS = do {
     ni \<leftarrow> ix i;
     nj \<leftarrow> ix j;
     result \<leftarrow> SETBIT result 0 ni;
     matrix \<leftarrow> CLEARBIT matrix (nj * SLOTS) ni;
     ai \<leftarrow> rd a i;
     if left ai < 0 then Some (matrix, result, 1)
     else do {
       bj \<leftarrow> rd b j;
       al \<leftarrow> ix (left ai);
       bl \<leftarrow> ix (left bj);
       t \<leftarrow> TESTBIT matrix (bl * SLOTS) al;
       (matrix, result, terms) \<leftarrow>
         (if t then extractat matrix result a b (left ai) (left bj) SLOTS
          else Some (matrix, result, 0));
       if right ai < 0 then Some (matrix, result, 0)
       else do {
         ar \<leftarrow> ix (right ai);
         br \<leftarrow> ix (right bj);
         t \<leftarrow> TESTBIT matrix (br * SLOTS) ar;
         (matrix, result, terms') \<leftarrow>
           (if t then extractat matrix result a b (right ai) (right bj) SLOTS
            else Some (matrix, result, 0));
         Some (matrix, result, terms + terms')
       }
     }
   }"

declare extractat.simps [code]

subsection \<open>Claim C2\<close>

text \<open>
  C2 says that \<open>extractat\<close> returns the number of terminals of \<open>a\<close> that it put into the
  result. Take for \<open>a\<close> and \<open>b\<close> the tree \<open>(NP (N x))\<close>: node 0 is unary with child 1, node 1
  is a terminal, and the kernel matrix has bit 0 in row 0 and bit 1 in row 1. Started at
  \<open>(0, 0)\<close>, \<open>extractat\<close> puts nodes 0 and 1 into the result, clears both matrix bits, and
  returns 0 although it absorbed the terminal node 1: the branch for a unary node returns the
  constant 0 instead of the count gathered from the left child.
\<close>

theorem extractat_unary_returns_zero:
  "extractat [1, 2] [0, 0, 0]
     [\<lparr>prod = 0, left = 1, right = -1\<rparr>, \<lparr>prod = 1, left = -1, right = -1\<rparr>]
     [\<lparr>prod = 0, left = 1, right = -1\<rparr>, \<lparr>prod = 1, left = -1, right = -1\<rparr>] 0 0 1
   = Some ([0, 0], [3, 0, 0], 0)"
  by (simp add: extractat.simps ix_def SETBIT_def CLEARBIT_def TESTBIT_def rd_def)

section \<open>The tree arena\<close>

text \<open>
  Python exceptions and C memory faults are values. \<open>MemoryFault\<close> stands for a read or
  write outside an allocated array. Allocation itself is taken to succeed.
\<close>

datatype error =
    ValueError string
  | KeyError
  | IndexError
  | AttributeError
  | OverflowError
  | UnicodeDecodeError
  | AssertionError
  | MemoryFault

text \<open>
  A \<open>NodeArray\<close> describes one tree of the arena; its fields \<open>len\<close> and \<open>root\<close> are C
  \<open>short\<close>s. \<open>Ctrees\<close> is the arena. Its fields
  \<open>len\<close> and \<open>max\<close> are \<open>clen\<close> and \<open>cmax\<close> here. \<open>treeswithprod\<close> holds one Python set
  of tree indices per production; a set is the list of its members in insertion order.
\<close>

record NodeArray =
  offset :: nat
  len :: int
  root :: int

record Ctrees =
  trees :: "NodeArray list"
  nodes :: "Node list"
  clen :: nat
  cmax :: nat
  numnodes :: nat
  maxnodes :: nat
  nodesleft :: int
  treeswithprod :: "int list list"

text \<open>
  C \<open>realloc\<close> keeps the old cells and hands out new ones uninitialised. The contents of
  fresh cells are the parameters \<open>tfill\<close> and \<open>nfill\<close> of the operations below. The argument
  \<open>extranodes\<close> of the method \<open>realloc\<close> is a C \<open>int\<close>; the new size \<open>numnodes + extranodes\<close> is
  not negative there, since \<open>extranodes\<close> exceeds \<open>nodesleft\<close>.
\<close>

definition resize :: "'a \<Rightarrow> nat \<Rightarrow> 'a list \<Rightarrow> 'a list" where
  "resize fill n xs = take n xs @ replicate (n - length xs) fill"

definition overalloc :: "nat \<Rightarrow> nat" where
  "overalloc n = n + (n div 8) + (if n < 9 then 3 else 6)"

definition realloc :: "NodeArray \<Rightarrow> Node \<Rightarrow> nat \<Rightarrow> int \<Rightarrow> Ctrees \<Rightarrow> Ctrees" where
  "realloc tfill nfill numtrees extranodes self =
     (let self1 =
        (if numtrees > cmax self
         then self\<lparr>trees := resize tfill (overalloc numtrees) (trees self),
                   cmax := overalloc numtrees\<rparr>
         else self)
      in if extranodes > nodesleft self1
         then let n = nat (int (numnodes self1) + extranodes) in
              self1\<lparr>nodes := resize nfill (overalloc n) (nodes self1),
                    nodesleft := int (overalloc n) - int (numnodes self1)\<rparr>
         else self1)"

text \<open>
  The Python side of \<open>add\<close>: a tree is a list of objects. An element is a \<open>Tree\<close> with its
  production key, its children and, on the first element, the attribute \<open>rootidx\<close>; a child
  is an \<open>int\<close> (a terminal index), a \<open>Tree\<close> (of which only \<open>idx\<close> is read) or something
  else. Assigning a Python integer to a C \<open>short\<close> or \<open>int\<close> field raises OverflowError
  when it does not fit (\<open>to_short\<close>, \<open>to_int32\<close>). Assigning a C integer to a narrower C
  integer keeps the low bits and raises nothing (\<open>short_of\<close>, \<open>int_of\<close>); \<open>len(tree)\<close> of a
  list is such a C integer, a \<open>Py_ssize_t\<close>, and so is the argument \<open>cnt\<close> of \<open>addnodes\<close>.
\<close>

datatype pychild = IntChild int | TreeChild int | OtherChild

datatype 'p pynode = NonTree | Tree (t_prod: 'p) (t_children: "pychild list") (t_rootidx: "int option")

definition to_short :: "int \<Rightarrow> error + int" where
  "to_short v = (if - 32768 \<le> v \<and> v \<le> 32767 then Inr v else Inl OverflowError)"

definition to_int32 :: "int \<Rightarrow> error + int" where
  "to_int32 v = (if - 2147483648 \<le> v \<and> v \<le> 2147483647 then Inr v else Inl OverflowError)"

definition short_of :: "int \<Rightarrow> int" where
  "short_of v = (v + 32768) mod 65536 - 32768"

definition int_of :: "int \<Rightarrow> int" where
  "int_of v = (v + 2147483648) mod 4294967296 - 2147483648"


definition set_prod :: "Node list \<Rightarrow> nat \<Rightarrow> int \<Rightarrow> Node list" where
  "set_prod mem k v = mem[k := (mem ! k)\<lparr>prod := v\<rparr>]"

definition set_left :: "Node list \<Rightarrow> nat \<Rightarrow> int \<Rightarrow> Node list" where
  "set_left mem k v = mem[k := (mem ! k)\<lparr>left := v\<rparr>]"

definition set_right :: "Node list \<Rightarrow> nat \<Rightarrow> int \<Rightarrow> Node list" where
  "set_right mem k v = mem[k := (mem ! k)\<lparr>right := v\<rparr>]"

definition copynode ::
  "'p pynode \<Rightarrow> ('p \<rightharpoonup> int) \<Rightarrow> nat \<Rightarrow> Node list \<Rightarrow> error option \<times> Node list" where
  "copynode a prods k mem =
     (case a of
        NonTree \<Rightarrow> (Some (ValueError ''Expected Tree node''), mem)
      | Tree p cs r \<Rightarrow>
          if \<not> (1 \<le> length cs \<and> length cs \<le> 2)
          then (Some (ValueError ''trees must be non-empty and binarized''), mem)
          else (case prods p of
             None \<Rightarrow> (Some KeyError, mem)
           | Some v \<Rightarrow>
              (case to_int32 v of
                 Inl e \<Rightarrow> (Some e, mem)
               | Inr pv \<Rightarrow>
                  if k \<ge> length mem then (Some MemoryFault, mem)
                  else let mem1 = set_prod mem k pv in
                    (case cs ! 0 of
                       IntChild t \<Rightarrow>
                         (case to_short (- t - 1) of
                            Inl e \<Rightarrow> (Some e, mem1)
                          | Inr l \<Rightarrow> (None, set_left mem1 k l))
                     | TreeChild c0 \<Rightarrow>
                         (case to_short c0 of
                            Inl e \<Rightarrow> (Some e, mem1)
                          | Inr l \<Rightarrow>
                             let mem2 = set_left mem1 k l in
                             if length cs = 2 then
                               (case cs ! 1 of
                                  TreeChild c1 \<Rightarrow>
                                    (case to_short c1 of
                                       Inl e \<Rightarrow> (Some e, mem2)
                                     | Inr r \<Rightarrow> (None, set_right mem2 k r))
                                | _ \<Rightarrow> (Some AttributeError, mem2))
                             else (None, set_right mem2 k (- 1)))
                     | OtherChild \<Rightarrow> (Some AttributeError, mem1)))))"

fun copynodes ::
  "'p pynode list \<Rightarrow> ('p \<rightharpoonup> int) \<Rightarrow> nat \<Rightarrow> Node list \<Rightarrow> error option \<times> Node list" where
  "copynodes [] prods k mem = (None, mem)"
| "copynodes (a # tree) prods k mem =
     (case copynode a prods k mem of
        (Some e, mem') \<Rightarrow> (Some e, mem')
      | (None, mem') \<Rightarrow> copynodes tree prods (k + 1) mem')"

definition add ::
  "NodeArray \<Rightarrow> Node \<Rightarrow> 'p pynode list \<Rightarrow> ('p \<rightharpoonup> int) \<Rightarrow> Ctrees \<Rightarrow> error option \<times> Ctrees" where
  "add tfill nfill tree prods self =
     (if cmax self = 0 then (Some (ValueError ''alloc() has not been called (max=0).''), self)
      else
        let self1 = (if clen self \<ge> cmax self \<or> nodesleft self < int (length tree)
                     then realloc tfill nfill (clen self + 1) (int_of (int (length tree))) self
                     else self)
        in (if clen self1 \<ge> length (trees self1) then (Some MemoryFault, self1)
               else
                 let self2 = self1\<lparr>trees := (trees self1)[clen self1 :=
                       (trees self1 ! clen self1)\<lparr>len := short_of (int (length tree)),
                         offset := numnodes self1\<rparr>]\<rparr>
                 in (case copynodes tree prods (numnodes self2) (nodes self2) of
                       (Some e, mem) \<Rightarrow> (Some e, self2\<lparr>nodes := mem\<rparr>)
                     | (None, mem) \<Rightarrow>
                        let self3 = self2\<lparr>nodes := mem\<rparr> in
                        (case tree of
                           [] \<Rightarrow> (Some IndexError, self3)
                         | t0 # _ \<Rightarrow>
                            (case t0 of
                               NonTree \<Rightarrow> (Some AttributeError, self3)
                             | Tree _ _ r \<Rightarrow>
                                (case r of
                                   None \<Rightarrow> (Some AttributeError, self3)
                                 | Some ri \<Rightarrow>
                                    (case to_short ri of
                                       Inl e \<Rightarrow> (Some e, self3)
                                     | Inr rv \<Rightarrow>
                                        (None, self3\<lparr>
                                           trees := (trees self3)[clen self3 :=
                                             (trees self3 ! clen self3)\<lparr>root := rv\<rparr>],
                                           clen := clen self3 + 1,
                                           nodesleft := nodesleft self3 - int (length tree),
                                           numnodes := numnodes self3 + length tree,
                                           maxnodes := max (maxnodes self3) (length tree)\<rparr>))))))))"

definition alloc :: "NodeArray \<Rightarrow> Node \<Rightarrow> nat \<Rightarrow> nat \<Rightarrow> Ctrees \<Rightarrow> Ctrees" where
  "alloc tfill nfill numtrees nnodes self =
     self\<lparr>cmax := numtrees, trees := replicate numtrees tfill,
          nodes := replicate nnodes nfill, nodesleft := int nnodes\<rparr>"

definition Ctrees_init :: Ctrees where
  "Ctrees_init = \<lparr>trees = [], nodes = [], clen = 0, cmax = 0, numnodes = 0, maxnodes = 0,
     nodesleft = 0, treeswithprod = []\<rparr>"


subsection \<open>Claim C8\<close>

text \<open>
  The bookkeeping of the arena agrees with its allocated arrays.
\<close>

definition arena_ok :: "Ctrees \<Rightarrow> bool" where
  "arena_ok self =
     (clen self \<le> cmax self \<and> length (trees self) = cmax self \<and> 0 \<le> nodesleft self \<and>
      length (nodes self) = numnodes self + nat (nodesleft self))"

lemma copynode_frame:
  assumes "copynode a prods k mem = (r, mem')"
  shows "length mem' = length mem \<and> take k mem' = take k mem"
  using assms
  unfolding copynode_def set_prod_def set_left_def set_right_def Let_def
  by (auto split: pynode.splits if_splits option.splits sum.splits pychild.splits)

lemma copynodes_frame:
  "copynodes tree prods k mem = (r, mem') \<Longrightarrow>
     length mem' = length mem \<and> take k mem' = take k mem"
proof (induction tree arbitrary: k mem)
  case Nil
  then show ?case by simp
next
  case (Cons a tree)
  obtain r1 mem1 where c: "copynode a prods k mem = (r1, mem1)" by (cases "copynode a prods k mem")
  from copynode_frame [OF c] have f: "length mem1 = length mem" "take k mem1 = take k mem"
    by simp_all
  show ?case
  proof (cases r1)
    case (Some e)
    with Cons.prems c f show ?thesis by simp
  next
    case None
    with Cons.prems c have "copynodes tree prods (k + 1) mem1 = (r, mem')" by simp
    from Cons.IH [OF this] have "length mem' = length mem1" "take (k + 1) mem' = take (k + 1) mem1"
      by simp_all
    then have "take k (take (k + 1) mem') = take k (take (k + 1) mem1)" by simp
    then have "take k mem' = take k mem1" by (simp add: min_def)
    with f \<open>length mem' = length mem1\<close> show ?thesis by simp
  qed
qed

lemma realloc_frame:
  assumes "arena_ok self"
  shows "clen (realloc tfill nfill (clen self + 1) extranodes self) = clen self"
    and "numnodes (realloc tfill nfill (clen self + 1) extranodes self) = numnodes self"
    and "maxnodes (realloc tfill nfill (clen self + 1) extranodes self) = maxnodes self"
    and "take (clen self) (trees (realloc tfill nfill (clen self + 1) extranodes self)) =
         take (clen self) (trees self)"
    and "take (numnodes self) (nodes (realloc tfill nfill (clen self + 1) extranodes self)) =
         take (numnodes self) (nodes self)"
  using assms
  by (auto simp: realloc_def Let_def resize_def overalloc_def arena_ok_def)

lemma realloc_ok:
  assumes "arena_ok self" "clen self \<ge> cmax self \<or> nodesleft self < extranodes"
  shows "arena_ok (realloc tfill nfill (clen self + 1) extranodes self)"
    and "clen self < cmax (realloc tfill nfill (clen self + 1) extranodes self)"
    and "extranodes \<le> nodesleft (realloc tfill nfill (clen self + 1) extranodes self)"
  using assms
  by (auto simp: realloc_def Let_def resize_def overalloc_def arena_ok_def)


text \<open>
  C8. When \<open>add\<close> raises an error, whichever it is, \<open>len\<close>, \<open>numnodes\<close> and \<open>maxnodes\<close>
  keep their values, the \<open>NodeArray\<close>s of the trees added before are unchanged, and so are
  the first \<open>numnodes\<close> nodes of the pool, which hold all their slices: what \<open>add\<close> wrote
  before the error lies beyond \<open>len\<close> and \<open>numnodes\<close>.
\<close>

theorem add_error_keeps_arena:
  assumes ok: "arena_ok self"
    and err: "add tfill nfill tree prods self = (Some e, self')"
  shows "clen self' = clen self \<and> numnodes self' = numnodes self \<and>
    maxnodes self' = maxnodes self \<and>
    take (clen self) (trees self') = take (clen self) (trees self) \<and>
    take (numnodes self) (nodes self') = take (numnodes self) (nodes self)"
proof (cases "cmax self = 0")
  case True
  with err show ?thesis by (simp add: add_def)
next
  case False
  define self1 where "self1 =
    (if clen self \<ge> cmax self \<or> nodesleft self < int (length tree)
     then realloc tfill nfill (clen self + 1) (int_of (int (length tree))) self else self)"
  have f1: "clen self1 = clen self" "numnodes self1 = numnodes self"
    "maxnodes self1 = maxnodes self"
    "take (clen self) (trees self1) = take (clen self) (trees self)"
    "take (numnodes self) (nodes self1) = take (numnodes self) (nodes self)"
    using realloc_frame [OF ok] by (simp_all add: self1_def)
  define self2 where "self2 = self1\<lparr>trees := (trees self1)[clen self1 :=
     (trees self1 ! clen self1)\<lparr>len := short_of (int (length tree)),
       offset := numnodes self1\<rparr>]\<rparr>"
  have f2: "clen self2 = clen self" "numnodes self2 = numnodes self"
    "maxnodes self2 = maxnodes self"
    "take (clen self) (trees self2) = take (clen self) (trees self)"
    "nodes self2 = nodes self1"
    using f1 by (simp_all add: self2_def)
  obtain r mem where c: "copynodes tree prods (numnodes self2) (nodes self2) = (r, mem)"
    by (cases "copynodes tree prods (numnodes self2) (nodes self2)")
  from copynodes_frame [OF c] f2 f1
  have fm: "take (numnodes self) mem = take (numnodes self) (nodes self)" by simp
  define self3 where "self3 = self2\<lparr>nodes := mem\<rparr>"
  have f3: "clen self3 = clen self" "numnodes self3 = numnodes self"
    "maxnodes self3 = maxnodes self"
    "take (clen self) (trees self3) = take (clen self) (trees self)"
    "take (numnodes self) (nodes self3) = take (numnodes self) (nodes self)"
    using f2 fm by (simp_all add: self3_def)
  have "self' = self1 \<or> self' = self3"
    using err False c unfolding add_def Let_def self1_def [symmetric] self2_def [symmetric]
      self3_def
    by (auto split: sum.splits if_splits option.splits list.splits pynode.splits)
  with f1 f3 show ?thesis by auto
qed



theorem add_error_keeps_arena_witness:
  "\<exists>self'.
     add \<lparr>offset = 0, len = 0, root = 0\<rparr> \<lparr>prod = 0, left = 0, right = 0\<rparr>
       [Tree ''S'' [TreeChild 1, TreeChild 2] (Some 0), Tree ''X'' [] None]
       [''S'' \<mapsto> 0, ''N'' \<mapsto> 1, ''X'' \<mapsto> 2]
       \<lparr>trees = [\<lparr>offset = 0, len = 2, root = 0\<rparr>],
        nodes = [\<lparr>prod = 0, left = 1, right = - 1\<rparr>, \<lparr>prod = 1, left = - 1, right = 0\<rparr>,
                 \<lparr>prod = 7, left = 7, right = 7\<rparr>],
        clen = 1, cmax = 1, numnodes = 2, maxnodes = 2, nodesleft = 1, treeswithprod = []\<rparr>
     = (Some (ValueError ''trees must be non-empty and binarized''), self') \<and>
     nodes self' ! 2 = \<lparr>prod = 0, left = 1, right = 2\<rparr> \<and>
     clen self' = 1 \<and> numnodes self' = 2 \<and> maxnodes self' = 2 \<and>
     take 1 (trees self') = [\<lparr>offset = 0, len = 2, root = 0\<rparr>] \<and>
     take 2 (nodes self') =
       [\<lparr>prod = 0, left = 1, right = - 1\<rparr>, \<lparr>prod = 1, left = - 1, right = 0\<rparr>]"
proof -
  let ?self = "\<lparr>trees = [\<lparr>offset = 0, len = 2, root = 0\<rparr>],
        nodes = [\<lparr>prod = 0, left = 1, right = - 1\<rparr>, \<lparr>prod = 1, left = - 1, right = 0\<rparr>,
                 \<lparr>prod = 7, left = 7, right = 7\<rparr>],
        clen = 1, cmax = 1, numnodes = 2, maxnodes = 2, nodesleft = 1, treeswithprod = []\<rparr>"
  let ?self' = "\<lparr>trees = [\<lparr>offset = 0, len = 2, root = 0\<rparr>, \<lparr>offset = 2, len = 2, root = 0\<rparr>,
          \<lparr>offset = 0, len = 0, root = 0\<rparr>, \<lparr>offset = 0, len = 0, root = 0\<rparr>,
          \<lparr>offset = 0, len = 0, root = 0\<rparr>],
        nodes = [\<lparr>prod = 0, left = 1, right = - 1\<rparr>, \<lparr>prod = 1, left = - 1, right = 0\<rparr>,
          \<lparr>prod = 0, left = 1, right = 2\<rparr>, \<lparr>prod = 0, left = 0, right = 0\<rparr>,
          \<lparr>prod = 0, left = 0, right = 0\<rparr>, \<lparr>prod = 0, left = 0, right = 0\<rparr>,
          \<lparr>prod = 0, left = 0, right = 0\<rparr>],
        clen = 1, cmax = 5, numnodes = 2, maxnodes = 2, nodesleft = 5, treeswithprod = []\<rparr>"
  have ok: "arena_ok ?self" by (simp add: arena_ok_def)
  have err: "add \<lparr>offset = 0, len = 0, root = 0\<rparr> \<lparr>prod = 0, left = 0, right = 0\<rparr>
       [Tree ''S'' [TreeChild 1, TreeChild 2] (Some 0), Tree ''X'' [] None]
       [''S'' \<mapsto> 0, ''N'' \<mapsto> 1, ''X'' \<mapsto> 2] ?self
     = (Some (ValueError ''trees must be non-empty and binarized''), ?self')"
    by code_simp
  from add_error_keeps_arena [OF ok err]
  have "clen ?self' = clen ?self \<and> numnodes ?self' = numnodes ?self \<and>
    maxnodes ?self' = maxnodes ?self \<and>
    take (clen ?self) (trees ?self') = take (clen ?self) (trees ?self) \<and>
    take (numnodes ?self) (nodes ?self') = take (numnodes ?self) (nodes ?self)" .
  with err show ?thesis by simp
qed


text \<open>
  \<open>addnodes\<close> copies a tree that is already an array of nodes. \<open>sorted_order\<close> is
  \<open>sorted(range(cnt), key=prodsintree.get)\<close>; Python's sort is stable, as \<open>sort_key\<close> is.
  \<open>sortidx_items\<close> lists the items of the dict \<open>sortidx\<close>, which maps an index of the
  source to its position in the sorted order; in \<open>sortidx\<close> a later item replaces an
  earlier one with the same key.
\<close>

definition sorted_order :: "Node list \<Rightarrow> nat \<Rightarrow> nat list" where
  "sorted_order source cnt = sort_key (\<lambda>n. prod (source ! n)) [0..<cnt]"

definition sortidx_items :: "Node list \<Rightarrow> nat \<Rightarrow> (nat \<times> nat) list" where
  "sortidx_items source cnt = map (\<lambda>(n, m). (m, n)) (enumerate 0 (sorted_order source cnt))"

definition sortidx :: "Node list \<Rightarrow> nat \<Rightarrow> int \<Rightarrow> nat option" where
  "sortidx source cnt k =
     (if 0 \<le> k then map_of (rev (sortidx_items source cnt)) (nat k) else None)"

text \<open>One round of the copying loop: \<open>dest[m] = source[n]\<close> and the rewriting of its children.\<close>

definition addnodes_item ::
  "Node list \<Rightarrow> nat \<Rightarrow> nat \<Rightarrow> nat \<Rightarrow> nat \<Rightarrow> Node list \<Rightarrow> error option \<times> Node list" where
  "addnodes_item source cnt base n m mem =
     (if n \<ge> length source \<or> base + m \<ge> length mem then (Some MemoryFault, mem)
      else
        let mem1 = mem[base + m := source ! n] in
        if left (mem1 ! (base + m)) \<ge> 0 then
          (case sortidx source cnt (left (source ! n)) of
             None \<Rightarrow> (Some KeyError, mem1)
           | Some l \<Rightarrow>
              (case to_short (int l) of
                 Inl e \<Rightarrow> (Some e, mem1)
               | Inr lv \<Rightarrow>
                  let mem2 = set_left mem1 (base + m) lv in
                  if right (mem2 ! (base + m)) \<ge> 0 then
                    (case sortidx source cnt (right (source ! n)) of
                       None \<Rightarrow> (Some KeyError, mem2)
                     | Some r \<Rightarrow>
                        (case to_short (int r) of
                           Inl e \<Rightarrow> (Some e, mem2)
                         | Inr rv \<Rightarrow> (None, set_right mem2 (base + m) rv)))
                  else (None, mem2)))
        else (None, mem1))"

fun addnodes_copy ::
  "(nat \<times> nat) list \<Rightarrow> Node list \<Rightarrow> nat \<Rightarrow> nat \<Rightarrow> Node list
    \<Rightarrow> error option \<times> Node list" where
  "addnodes_copy [] source cnt base mem = (None, mem)"
| "addnodes_copy ((n, m) # items) source cnt base mem =
     (case addnodes_item source cnt base n m mem of
        (Some e, mem') \<Rightarrow> (Some e, mem')
      | (None, mem') \<Rightarrow> addnodes_copy items source cnt base mem')"

definition addnodes ::
  "NodeArray \<Rightarrow> Node \<Rightarrow> Node list \<Rightarrow> nat \<Rightarrow> int \<Rightarrow> Ctrees \<Rightarrow> error option \<times> Ctrees" where
  "addnodes tfill nfill source cnt root0 self =
     (if cmax self = 0 then (Some (ValueError ''alloc() has not been called (max=0).''), self)
      else
        let self1 = (if clen self \<ge> cmax self \<or> nodesleft self < int cnt
                     then realloc tfill nfill (clen self + 1) (int cnt) self else self)
        in if cnt > length source then (Some MemoryFault, self1)
        else (case addnodes_copy (sortidx_items source cnt) source cnt (numnodes self1)
                     (nodes self1) of
            (Some e, mem) \<Rightarrow> (Some e, self1\<lparr>nodes := mem\<rparr>)
          | (None, mem) \<Rightarrow>
             let self2 = self1\<lparr>nodes := mem\<rparr> in
             if clen self2 \<ge> length (trees self2) then (Some MemoryFault, self2)
             else
               let self3 = self2\<lparr>trees := (trees self2)[clen self2 :=
                     (trees self2 ! clen self2)\<lparr>offset := numnodes self2\<rparr>]\<rparr>
               in (case sortidx source cnt root0 of
                     None \<Rightarrow> (Some KeyError, self3)
                   | Some r \<Rightarrow>
                      (case to_short (int r) of
                         Inl e \<Rightarrow> (Some e, self3)
                       | Inr rv \<Rightarrow>
                          (None, self3\<lparr>
                             trees := (trees self3)[clen self3 :=
                               (trees self3 ! clen self3)\<lparr>root := rv, len := short_of (int cnt)\<rparr>],
                             clen := clen self3 + 1,
                             nodesleft := nodesleft self3 - int cnt,
                             numnodes := numnodes self3 + cnt,
                             maxnodes := (if cnt > maxnodes self3 then cnt
                                          else maxnodes self3)\<rparr>)))))"


subsection \<open>Claim C7\<close>

text \<open>
  \<open>rewritten source cnt n d\<close>: the stored node \<open>d\<close> is the source node \<open>n\<close> with its child
  indices sent through \<open>sortidx\<close>. A terminal (\<open>left < 0\<close>) is stored as it is; the \<open>right\<close>
  of a unary node (\<open>right < 0\<close>) is stored as it is.
\<close>

definition rewritten :: "Node list \<Rightarrow> nat \<Rightarrow> nat \<Rightarrow> Node \<Rightarrow> bool" where
  "rewritten source cnt n d =
     (prod d = prod (source ! n) \<and>
      (if left (source ! n) \<ge> 0 then
         0 \<le> left d \<and> sortidx source cnt (left (source ! n)) = Some (nat (left d)) \<and>
         (if right (source ! n) \<ge> 0 then
            0 \<le> right d \<and> sortidx source cnt (right (source ! n)) = Some (nat (right d))
          else right d = right (source ! n))
       else left d = left (source ! n) \<and> right d = right (source ! n)))"

lemma sorted_order_props:
  "length (sorted_order source cnt) = cnt"
  "distinct (sorted_order source cnt)"
  "set (sorted_order source cnt) = {0..<cnt}"
  "sorted (map (\<lambda>n. prod (source ! n)) (sorted_order source cnt))"
  by (simp_all add: sorted_order_def)

lemma sortidx_items_zip:
  "sortidx_items source cnt = zip (sorted_order source cnt) [0..<cnt]"
proof -
  have "enumerate 0 (sorted_order source cnt) = zip [0..<cnt] (sorted_order source cnt)"
    by (simp add: enumerate_eq_zip sorted_order_props)
  then show ?thesis
    unfolding sortidx_items_def by (simp add: zip_commute [of "sorted_order source cnt"])
qed

lemma sortidx_items_fst: "map fst (sortidx_items source cnt) = sorted_order source cnt"
  by (simp add: sortidx_items_zip sorted_order_props)

lemma sortidx_items_snd: "map snd (sortidx_items source cnt) = [0..<cnt]"
  by (simp add: sortidx_items_zip sorted_order_props)

lemma sortidx_items_set:
  "((n, m) \<in> set (sortidx_items source cnt)) = (m < cnt \<and> sorted_order source cnt ! m = n)"
  by (auto simp: sortidx_items_zip set_zip sorted_order_props)

lemma sortidx_Some:
  "(sortidx source cnt k = Some m) = (0 \<le> k \<and> m < cnt \<and> sorted_order source cnt ! m = nat k)"
proof -
  have "distinct (map fst (rev (sortidx_items source cnt)))"
    by (simp add: rev_map [symmetric] sortidx_items_fst sorted_order_props)
  then have "(map_of (rev (sortidx_items source cnt)) (nat k) = Some m) =
    ((nat k, m) \<in> set (rev (sortidx_items source cnt)))"
    by (rule map_of_eq_Some_iff)
  then show ?thesis
    by (simp add: sortidx_def sortidx_items_set)
qed

lemma addnodes_item_None:
  assumes "addnodes_item source cnt base n m mem = (None, mem')"
  shows "length mem' = length mem \<and> n < length source \<and> base + m < length mem \<and>
    (\<forall>k. k \<noteq> base + m \<longrightarrow> mem' ! k = mem ! k) \<and> rewritten source cnt n (mem' ! (base + m))"
  using assms
  unfolding addnodes_item_def set_left_def set_right_def rewritten_def Let_def to_short_def
  by (auto split: if_splits option.splits sum.splits)

lemma addnodes_item_frame:
  assumes "addnodes_item source cnt base n m mem = (r, mem')"
  shows "length mem' = length mem \<and> take base mem' = take base mem"
  using assms
  unfolding addnodes_item_def set_left_def set_right_def Let_def
  by (auto split: if_splits option.splits sum.splits)

lemma addnodes_copy_None:
  "addnodes_copy items source cnt base mem = (None, mem') \<Longrightarrow> distinct (map snd items) \<Longrightarrow>
     length mem' = length mem \<and>
     (\<forall>(n, m) \<in> set items. base + m < length mem \<and> rewritten source cnt n (mem' ! (base + m))) \<and>
     (\<forall>k. k \<notin> (\<lambda>(n, m). base + m) ` set items \<longrightarrow> mem' ! k = mem ! k)"
proof (induction items arbitrary: mem)
  case Nil
  then show ?case by simp
next
  case (Cons x items)
  obtain n m where x: "x = (n, m)" by (cases x)
  obtain r mem1 where i: "addnodes_item source cnt base n m mem = (r, mem1)"
    by (cases "addnodes_item source cnt base n m mem")
  with Cons.prems(1) x have r: "r = None" by (cases r) auto
  with Cons.prems(1) x i have c: "addnodes_copy items source cnt base mem1 = (None, mem')" by simp
  from Cons.prems(2) x have d: "distinct (map snd items)" "m \<notin> snd ` set items" by auto
  from addnodes_item_None [OF i [unfolded r]]
  have i1: "length mem1 = length mem" "base + m < length mem"
    "\<And>k. k \<noteq> base + m \<Longrightarrow> mem1 ! k = mem ! k" "rewritten source cnt n (mem1 ! (base + m))"
    by simp_all
  from Cons.IH [OF c d(1)]
  have ih: "length mem' = length mem1"
    "\<And>n' m'. (n', m') \<in> set items \<Longrightarrow>
       base + m' < length mem1 \<and> rewritten source cnt n' (mem' ! (base + m'))"
    "\<And>k. k \<notin> (\<lambda>(n, m). base + m) ` set items \<Longrightarrow> mem' ! k = mem1 ! k"
    by auto
  have notin: "base + m \<notin> (\<lambda>(n, m). base + m) ` set items"
    using d(2) by force
  have "mem' ! (base + m) = mem1 ! (base + m)" by (rule ih(3) [OF notin])
  with i1(4) have here: "rewritten source cnt n (mem' ! (base + m))" by simp
  have rest: "mem' ! k = mem ! k" if "k \<notin> (\<lambda>(n, m). base + m) ` set (x # items)" for k
  proof -
    from that x have "k \<noteq> base + m" "k \<notin> (\<lambda>(n, m). base + m) ` set items" by auto
    with ih(3) i1(3) show ?thesis by simp
  qed
  show ?case
    using ih(1) i1(1,2) here ih(2) rest x by auto
qed

lemma addnodes_copy_frame:
  "addnodes_copy items source cnt base mem = (r, mem') \<Longrightarrow>
     length mem' = length mem \<and> take base mem' = take base mem"
proof (induction items arbitrary: mem)
  case Nil
  then show ?case by simp
next
  case (Cons x items)
  obtain n m where x: "x = (n, m)" by (cases x)
  obtain r1 mem1 where i: "addnodes_item source cnt base n m mem = (r1, mem1)"
    by (cases "addnodes_item source cnt base n m mem")
  from addnodes_item_frame [OF i] have f: "length mem1 = length mem" "take base mem1 = take base mem"
    by simp_all
  show ?case
  proof (cases r1)
    case (Some e)
    with Cons.prems x i f show ?thesis by simp
  next
    case None
    with Cons.prems x i have "addnodes_copy items source cnt base mem1 = (r, mem')" by simp
    from Cons.IH [OF this] f show ?thesis by simp
  qed
qed


lemma realloc_fields:
  "clen (realloc tfill nfill k extranodes self) = clen self"
  "numnodes (realloc tfill nfill k extranodes self) = numnodes self"
  "maxnodes (realloc tfill nfill k extranodes self) = maxnodes self"
  by (simp_all add: realloc_def Let_def)

text \<open>
  C7. When \<open>addnodes\<close> has added a tree, the new \<open>NodeArray\<close> starts at the old
  \<open>numnodes\<close>, its slice has \<open>cnt\<close> nodes, and its field \<open>len\<close> holds \<open>cnt\<close> cut to a C
  \<open>short\<close> (\<open>cnt\<close> itself up to 32767); \<open>sorted_order\<close> is a permutation of the source indices
  \<open>0..<cnt\<close> and \<open>sortidx\<close> is its inverse; position \<open>m\<close> of the slice holds the source node
  \<open>sorted_order ! m\<close>, rewritten; the productions are non-decreasing along the slice; and
  the stored root is \<open>sortidx\<close> of the given root.
\<close>

theorem addnodes_sorted_permutation:
  assumes "addnodes tfill nfill source cnt root0 self = (None, self')"
  shows "clen self' = clen self + 1 \<and> numnodes self' = numnodes self + cnt \<and>
     offset (trees self' ! clen self) = numnodes self \<and>
     len (trees self' ! clen self) = short_of (int cnt) \<and>
     length (take cnt (drop (numnodes self) (nodes self'))) = cnt \<and>
     sorted (map prod (take cnt (drop (numnodes self) (nodes self')))) \<and>
     distinct (sorted_order source cnt) \<and> set (sorted_order source cnt) = {0..<cnt} \<and>
     (\<forall>m<cnt. sortidx source cnt (int (sorted_order source cnt ! m)) = Some m \<and>
        rewritten source cnt (sorted_order source cnt ! m) (nodes self' ! (numnodes self + m))) \<and>
     0 \<le> root (trees self' ! clen self) \<and>
     sortidx source cnt root0 = Some (nat (root (trees self' ! clen self)))"
proof -
  define self1 where "self1 =
    (if clen self \<ge> cmax self \<or> nodesleft self < int cnt
     then realloc tfill nfill (clen self + 1) (int cnt) self else self)"
  have f1: "clen self1 = clen self" "numnodes self1 = numnodes self"
    by (simp_all add: self1_def realloc_fields)
  obtain r mem where c: "addnodes_copy (sortidx_items source cnt) source cnt (numnodes self1)
     (nodes self1) = (r, mem)"
    by (cases "addnodes_copy (sortidx_items source cnt) source cnt (numnodes self1) (nodes self1)")
  from assms have nz: "cmax self \<noteq> 0" and cs: "\<not> cnt > length source"
    unfolding addnodes_def Let_def by (auto split: if_splits)
  from assms nz cs c have r: "r = None"
    unfolding addnodes_def Let_def self1_def [symmetric] by (cases r) auto
  define self2 where "self2 = self1\<lparr>nodes := mem\<rparr>"
  define self3 where "self3 = self2\<lparr>trees := (trees self2)[clen self2 :=
     (trees self2 ! clen self2)\<lparr>offset := numnodes self2\<rparr>]\<rparr>"
  from assms nz cs c r have inb: "clen self2 < length (trees self2)"
    unfolding addnodes_def Let_def self1_def [symmetric] self2_def
    by (auto split: if_splits)
  from assms nz cs c r inb obtain pr rv where
    pr: "sortidx source cnt root0 = Some pr" "to_short (int pr) = Inr rv"
    and res: "self' = self3\<lparr>
        trees := (trees self3)[clen self3 :=
          (trees self3 ! clen self3)\<lparr>root := rv, len := short_of (int cnt)\<rparr>],
        clen := clen self3 + 1,
        nodesleft := nodesleft self3 - int cnt,
        numnodes := numnodes self3 + cnt,
        maxnodes := (if cnt > maxnodes self3 then cnt else maxnodes self3)\<rparr>"
    unfolding addnodes_def Let_def self1_def [symmetric] self2_def [symmetric] self3_def
    using self2_def
    by (auto split: if_splits option.splits sum.splits)
  from pr(2) have rv: "rv = int pr" by (auto simp: to_short_def split: if_splits)
  have f3: "clen self3 = clen self" "numnodes self3 = numnodes self" "nodes self3 = mem"
    "length (trees self3) = length (trees self2)"
    by (simp_all add: self3_def self2_def f1)
  have inb3: "clen self < length (trees self3)" using inb f3 by (simp add: self2_def f1)
  have t: "trees self' ! clen self =
     (trees self3 ! clen self)\<lparr>root := rv, len := short_of (int cnt)\<rparr>"
    using inb3 by (simp add: res f3)
  have off: "offset (trees self3 ! clen self) = numnodes self"
    using inb by (simp add: self3_def self2_def f1)
  have d: "distinct (map snd (sortidx_items source cnt))"
    by (simp add: sortidx_items_snd)
  from addnodes_copy_None [OF c [unfolded r] d]
  have cp: "length mem = length (nodes self1)"
    "\<And>n m. (n, m) \<in> set (sortidx_items source cnt) \<Longrightarrow>
       numnodes self + m < length (nodes self1) \<and>
       rewritten source cnt n (mem ! (numnodes self + m))"
    by (auto simp: f1)
  have cell: "numnodes self + m < length mem \<and>
     rewritten source cnt (sorted_order source cnt ! m) (mem ! (numnodes self + m))"
    if "m < cnt" for m
  proof -
    from that have "(sorted_order source cnt ! m, m) \<in> set (sortidx_items source cnt)"
      by (simp add: sortidx_items_set)
    from cp(2) [OF this] cp(1) show ?thesis by simp
  qed
  have nodes': "nodes self' = mem" by (simp add: res f3)
  let ?slice = "take cnt (drop (numnodes self) (nodes self'))"
  have len: "length ?slice = cnt"
  proof (cases cnt)
    case 0
    then show ?thesis by simp
  next
    case (Suc k)
    with cell [of k] have "numnodes self + cnt \<le> length mem" by simp
    then show ?thesis by (simp add: nodes')
  qed
  have nth: "?slice ! m = mem ! (numnodes self + m)" if "m < cnt" for m
    using that cell [OF that] by (simp add: nodes')
  have "map prod ?slice = map (\<lambda>n. prod (source ! n)) (sorted_order source cnt)"
  proof (rule nth_equalityI)
    show "length (map prod ?slice) = length (map (\<lambda>n. prod (source ! n)) (sorted_order source cnt))"
      using len by (simp add: sorted_order_props)
  next
    fix m assume "m < length (map prod ?slice)"
    with len have m: "m < cnt" by simp
    from cell [OF m] have "prod (mem ! (numnodes self + m)) =
       prod (source ! (sorted_order source cnt ! m))"
      by (simp add: rewritten_def)
    with m len nth [OF m]
    show "map prod ?slice ! m = map (\<lambda>n. prod (source ! n)) (sorted_order source cnt) ! m"
      by (simp add: sorted_order_props)
  qed
  then have srt: "sorted (map prod ?slice)"
    by (simp add: sorted_order_props)
  have perm: "distinct (sorted_order source cnt)" "set (sorted_order source cnt) = {0..<cnt}"
    by (simp_all add: sorted_order_props)
  have inv: "sortidx source cnt (int (sorted_order source cnt ! m)) = Some m" if "m < cnt" for m
    using that by (simp add: sortidx_Some)
  have cells: "\<forall>m<cnt. sortidx source cnt (int (sorted_order source cnt ! m)) = Some m \<and>
        rewritten source cnt (sorted_order source cnt ! m) (nodes self' ! (numnodes self + m))"
    using inv cell by (simp add: nodes')
  have "clen self' = clen self + 1" "numnodes self' = numnodes self + cnt"
    by (simp_all add: res f3)
  moreover have "offset (trees self' ! clen self) = numnodes self"
    "len (trees self' ! clen self) = short_of (int cnt)" "root (trees self' ! clen self) = int pr"
    using off by (simp_all add: t rv)
  ultimately show ?thesis
    using len srt perm cells pr(1) by simp
qed

theorem addnodes_sorted_permutation_witness:
  "addnodes \<lparr>offset = 0, len = 0, root = 0\<rparr> \<lparr>prod = 0, left = 0, right = 0\<rparr>
     [\<lparr>prod = 5, left = 1, right = 2\<rparr>, \<lparr>prod = 3, left = -1, right = -1\<rparr>,
      \<lparr>prod = 4, left = 3, right = -1\<rparr>, \<lparr>prod = 3, left = -2, right = -1\<rparr>] 4 0
     \<lparr>trees = [\<lparr>offset = 0, len = 0, root = 0\<rparr>],
      nodes = replicate 4 \<lparr>prod = 0, left = 0, right = 0\<rparr>,
      clen = 0, cmax = 1, numnodes = 0, maxnodes = 0, nodesleft = 4, treeswithprod = []\<rparr>
   = (None,
      \<lparr>trees = [\<lparr>offset = 0, len = 4, root = 3\<rparr>],
       nodes = [\<lparr>prod = 3, left = - 1, right = - 1\<rparr>, \<lparr>prod = 3, left = - 2, right = - 1\<rparr>,
                \<lparr>prod = 4, left = 1, right = - 1\<rparr>, \<lparr>prod = 5, left = 0, right = 2\<rparr>],
       clen = 1, cmax = 1, numnodes = 4, maxnodes = 4, nodesleft = 0, treeswithprod = []\<rparr>) \<and>
   sorted_order
     [\<lparr>prod = 5, left = 1, right = 2\<rparr>, \<lparr>prod = 3, left = -1, right = -1\<rparr>,
      \<lparr>prod = 4, left = 3, right = -1\<rparr>, \<lparr>prod = 3, left = -2, right = -1\<rparr>] 4 = [1, 3, 2, 0] \<and>
   sorted (map prod (take 4 (drop 0
     [\<lparr>prod = 3, left = - 1, right = - 1\<rparr>, \<lparr>prod = 3, left = - 2, right = - 1\<rparr>,
      \<lparr>prod = 4, left = 1, right = - 1\<rparr>, \<lparr>prod = 5, left = 0, right = 2\<rparr>]))) \<and>
   sortidx
     [\<lparr>prod = 5, left = 1, right = 2\<rparr>, \<lparr>prod = 3, left = -1, right = -1\<rparr>,
      \<lparr>prod = 4, left = 3, right = -1\<rparr>, \<lparr>prod = 3, left = -2, right = -1\<rparr>] 4 0 = Some 3"
proof -
  let ?src = "[\<lparr>prod = 5, left = 1, right = 2\<rparr>, \<lparr>prod = 3, left = -1, right = -1\<rparr>,
      \<lparr>prod = 4, left = 3, right = -1\<rparr>, \<lparr>prod = 3, left = -2, right = -1\<rparr>]"
  let ?self = "\<lparr>trees = [\<lparr>offset = 0, len = 0, root = 0\<rparr>],
      nodes = replicate 4 \<lparr>prod = 0, left = 0, right = 0\<rparr>,
      clen = 0, cmax = 1, numnodes = 0, maxnodes = 0, nodesleft = 4, treeswithprod = []\<rparr>"
  let ?self' = "\<lparr>trees = [\<lparr>offset = 0, len = 4, root = 3\<rparr>],
       nodes = [\<lparr>prod = 3, left = - 1, right = - 1\<rparr>, \<lparr>prod = 3, left = - 2, right = - 1\<rparr>,
                \<lparr>prod = 4, left = 1, right = - 1\<rparr>, \<lparr>prod = 5, left = 0, right = 2\<rparr>],
       clen = 1, cmax = 1, numnodes = 4, maxnodes = 4, nodesleft = 0, treeswithprod = []\<rparr>"
  have eq: "addnodes \<lparr>offset = 0, len = 0, root = 0\<rparr> \<lparr>prod = 0, left = 0, right = 0\<rparr>
     ?src 4 0 ?self = (None, ?self')"
    by code_simp
  have ord: "sorted_order ?src 4 = [1, 3, 2, 0]"
    by code_simp
  note c = addnodes_sorted_permutation [OF eq]
  from c have "sorted (map prod (take 4 (drop (numnodes ?self) (nodes ?self'))))"
    by blast
  moreover from c
  have "sortidx ?src 4 0 = Some (nat (root (trees ?self' ! clen ?self)))"
    by blast
  ultimately show ?thesis using eq ord by simp
qed


section \<open>The production index and the choice of tree pairs\<close>

text \<open>
  Python containers. A list is indexed with an \<open>int\<close>: a negative index counts from the end,
  and an index outside the list raises IndexError. A set is the list of its members in
  insertion order.
\<close>

definition pyindex :: "'a list \<Rightarrow> int \<Rightarrow> nat option" where
  "pyindex xs i =
     (let j = (if i < 0 then i + int (length xs) else i)
      in if 0 \<le> j \<and> j < int (length xs) then Some (nat j) else None)"

definition pyget :: "'a list \<Rightarrow> int \<Rightarrow> error + 'a" where
  "pyget xs i = (case pyindex xs i of None \<Rightarrow> Inl IndexError | Some k \<Rightarrow> Inr (xs ! k))"

definition set_add :: "'a \<Rightarrow> 'a list \<Rightarrow> 'a list" where
  "set_add x s = (if x \<in> set s then s else s @ [x])"

definition set_inter :: "'a list \<Rightarrow> 'a list \<Rightarrow> 'a list" where
  "set_inter s t = filter (\<lambda>x. x \<in> set t) s"

definition set_union :: "'a list \<Rightarrow> 'a list \<Rightarrow> 'a list" where
  "set_union s t = s @ filter (\<lambda>x. x \<notin> set s) (remdups t)"

text \<open>
  \<open>indextrees\<close>: \<open>nprods\<close> is \<open>len(prods)\<close>. The inner loop runs over the nodes \<open>m\<close> of
  tree \<open>n\<close>, the outer loop over the trees.
\<close>

fun indextrees_nodes ::
  "Node list \<Rightarrow> nat \<Rightarrow> nat list \<Rightarrow> int \<Rightarrow> int list list \<Rightarrow> error + int list list" where
  "indextrees_nodes pool off [] n result = Inr result"
| "indextrees_nodes pool off (m # ms) n result =
     (if off + m \<ge> length pool then Inl MemoryFault
      else (case pyindex result (prod (pool ! (off + m))) of
              None \<Rightarrow> Inl IndexError
            | Some k \<Rightarrow> indextrees_nodes pool off ms n (result[k := set_add n (result ! k)])))"

fun indextrees_trees ::
  "Ctrees \<Rightarrow> nat list \<Rightarrow> int list list \<Rightarrow> error + int list list" where
  "indextrees_trees self [] result = Inr result"
| "indextrees_trees self (n # ns) result =
     (if n \<ge> length (trees self) then Inl MemoryFault
      else (case indextrees_nodes (nodes self) (offset (trees self ! n))
                  [0..<nat (len (trees self ! n))] (int n) result of
              Inl e \<Rightarrow> Inl e
            | Inr result' \<Rightarrow> indextrees_trees self ns result'))"

definition indextrees :: "nat \<Rightarrow> Ctrees \<Rightarrow> error option \<times> Ctrees" where
  "indextrees nprods self =
     (case indextrees_trees self [0..<clen self] (replicate nprods []) of
        Inl e \<Rightarrow> (Some e, self)
      | Inr result \<Rightarrow> (None, self\<lparr>treeswithprod := result\<rparr>))"

text \<open>
  \<open>twoterminals\<close>: \<open>alen\<close> is \<open>a.len\<close>, \<open>anodes\<close> the node array of the tree, that is the
  pool from \<open>a.offset\<close> on.
\<close>

fun twoterminals_inner ::
  "nat \<Rightarrow> Node list \<Rightarrow> Ctrees \<Rightarrow> int list \<Rightarrow> nat \<Rightarrow> int list \<Rightarrow> nat list \<Rightarrow> int list
    \<Rightarrow> error + int list" where
  "twoterminals_inner alen anodes trees2 lexicalprods i tmp [] candidates = Inr candidates"
| "twoterminals_inner alen anodes trees2 lexicalprods i tmp (j # js) candidates =
     (if j \<ge> length anodes then Inl MemoryFault
      else if i \<noteq> j \<and> left (anodes ! j) < 0 \<and> prod (anodes ! j) \<in> set lexicalprods then
        (case pyget (treeswithprod trees2) (prod (anodes ! j)) of
           Inl e \<Rightarrow> Inl e
         | Inr other \<Rightarrow>
             twoterminals_inner alen anodes trees2 lexicalprods i tmp js
               (set_union candidates (set_inter tmp other)))
      else twoterminals_inner alen anodes trees2 lexicalprods i tmp js candidates)"

fun twoterminals_outer ::
  "nat \<Rightarrow> Node list \<Rightarrow> Ctrees \<Rightarrow> int list \<Rightarrow> int list \<Rightarrow> nat list \<Rightarrow> int list
    \<Rightarrow> error + int list" where
  "twoterminals_outer alen anodes trees2 contentwordprods lexicalprods [] candidates =
     Inr candidates"
| "twoterminals_outer alen anodes trees2 contentwordprods lexicalprods (i # is) candidates =
     (if i \<ge> length anodes then Inl MemoryFault
      else if left (anodes ! i) \<ge> 0 \<or> prod (anodes ! i) \<notin> set contentwordprods then
        twoterminals_outer alen anodes trees2 contentwordprods lexicalprods is candidates
      else
        (case pyget (treeswithprod trees2) (prod (anodes ! i)) of
           Inl e \<Rightarrow> Inl e
         | Inr tmp \<Rightarrow>
            (case twoterminals_inner alen anodes trees2 lexicalprods i tmp [0..<alen]
                    candidates of
               Inl e \<Rightarrow> Inl e
             | Inr candidates' \<Rightarrow>
                 twoterminals_outer alen anodes trees2 contentwordprods lexicalprods is
                   candidates')))"

definition twoterminals ::
  "nat \<Rightarrow> Node list \<Rightarrow> Ctrees \<Rightarrow> int list \<Rightarrow> int list \<Rightarrow> error + int list" where
  "twoterminals alen anodes trees2 contentwordprods lexicalprods =
     twoterminals_outer alen anodes trees2 contentwordprods lexicalprods [0..<alen] []"

subsection \<open>Members of the index\<close>

lemma pyindex_less: "pyindex xs i = Some k \<Longrightarrow> k < length xs"
  by (auto simp: pyindex_def Let_def split: if_splits)

lemma set_set_add [simp]: "set (set_add x s) = insert x (set s)"
  by (auto simp: set_add_def)

lemma set_set_inter [simp]: "set (set_inter s t) = set s \<inter> set t"
  by (auto simp: set_inter_def)

lemma set_set_union [simp]: "set (set_union s t) = set s \<union> set t"
  by (auto simp: set_union_def)

definition members_below :: "int list list \<Rightarrow> nat \<Rightarrow> bool" where
  "members_below idx n = (\<forall>s \<in> set idx. \<forall>m \<in> set s. 0 \<le> m \<and> m < int n)"

lemma members_below_update:
  assumes "members_below idx n" "k < length idx" "0 \<le> m" "m < int n"
  shows "members_below (idx[k := set_add m (idx ! k)]) n"
  unfolding members_below_def
proof (intro ballI)
  fix s x assume s: "s \<in> set (idx[k := set_add m (idx ! k)])" and x: "x \<in> set s"
  from s have "s = set_add m (idx ! k) \<or> s \<in> set idx"
    by (auto dest: set_update_subset_insert [THEN subsetD])
  then show "0 \<le> x \<and> x < int n"
  proof
    assume "s = set_add m (idx ! k)"
    with x have "x = m \<or> x \<in> set (idx ! k)" by simp
    with assms show ?thesis by (auto simp: members_below_def)
  next
    assume "s \<in> set idx"
    with x assms(1) show ?thesis by (auto simp: members_below_def)
  qed
qed

lemma indextrees_nodes_below:
  "indextrees_nodes pool off ms m result = Inr result' \<Longrightarrow> members_below result n \<Longrightarrow>
     0 \<le> m \<Longrightarrow> m < int n \<Longrightarrow> members_below result' n"
proof (induction ms arbitrary: result)
  case Nil
  then show ?case by simp
next
  case (Cons x ms)
  from Cons.prems(1) obtain k where k: "pyindex result (prod (pool ! (off + x))) = Some k"
    and rest: "indextrees_nodes pool off ms m (result[k := set_add m (result ! k)]) = Inr result'"
    by (auto split: if_splits option.splits)
  from members_below_update [OF Cons.prems(2) pyindex_less [OF k] Cons.prems(3,4)]
  show ?case by (rule Cons.IH [OF rest _ Cons.prems(3,4)])
qed

lemma indextrees_trees_below:
  "indextrees_trees self ns result = Inr result' \<Longrightarrow> members_below result n \<Longrightarrow>
     \<forall>x \<in> set ns. x < n \<Longrightarrow> members_below result' n"
proof (induction ns arbitrary: result)
  case Nil
  then show ?case by simp
next
  case (Cons x ns)
  from Cons.prems(1) obtain r1 where
    r1: "indextrees_nodes (nodes self) (offset (trees self ! x)) [0..<nat (len (trees self ! x))]
           (int x) result = Inr r1"
    and rest: "indextrees_trees self ns r1 = Inr result'"
    by (auto split: if_splits sum.splits)
  from Cons.prems(3) have "0 \<le> int x" "int x < int n" by simp_all
  from indextrees_nodes_below [OF r1 Cons.prems(2) this]
  have "members_below r1 n" .
  from Cons.IH [OF rest this] Cons.prems(3) show ?case by simp
qed

lemma indextrees_below:
  assumes "indextrees nprods self = (None, self')"
  shows "members_below (treeswithprod self') (clen self) \<and> clen self' = clen self"
proof -
  from assms obtain result where
    r: "indextrees_trees self [0..<clen self] (replicate nprods []) = Inr result"
    and s: "self' = self\<lparr>treeswithprod := result\<rparr>"
    by (auto simp: indextrees_def split: sum.splits)
  have "members_below (replicate nprods []) (clen self)"
    by (simp add: members_below_def)
  from indextrees_trees_below [OF r this] s show ?thesis by simp
qed

lemma pyget_member: "pyget xs i = Inr x \<Longrightarrow> x \<in> set xs"
  by (auto simp: pyget_def dest: pyindex_less split: option.splits)

lemma twoterminals_inner_below:
  "twoterminals_inner alen anodes trees2 lexicalprods i tmp js candidates = Inr result \<Longrightarrow>
     \<forall>m \<in> set candidates. 0 \<le> m \<and> m < int n \<Longrightarrow>
     \<forall>m \<in> set tmp. 0 \<le> m \<and> m < int n \<Longrightarrow>
     \<forall>m \<in> set result. 0 \<le> m \<and> m < int n"
proof (induction js arbitrary: candidates)
  case Nil
  then show ?case by simp
next
  case (Cons j js)
  show ?case
  proof (cases "i \<noteq> j \<and> left (anodes ! j) < 0 \<and> prod (anodes ! j) \<in> set lexicalprods")
    case True
    with Cons.prems(1) obtain other where
      rest: "twoterminals_inner alen anodes trees2 lexicalprods i tmp js
               (set_union candidates (set_inter tmp other)) = Inr result"
      by (auto split: if_splits sum.splits)
    have "\<forall>m \<in> set (set_union candidates (set_inter tmp other)). 0 \<le> m \<and> m < int n"
      using Cons.prems(2,3) by auto
    from Cons.IH [OF rest this Cons.prems(3)] show ?thesis .
  next
    case False
    with Cons.prems(1)
    have "twoterminals_inner alen anodes trees2 lexicalprods i tmp js candidates = Inr result"
      by (auto split: if_splits)
    from Cons.IH [OF this Cons.prems(2,3)] show ?thesis .
  qed
qed

lemma twoterminals_outer_below:
  "twoterminals_outer alen anodes trees2 contentwordprods lexicalprods is candidates = Inr result
     \<Longrightarrow> members_below (treeswithprod trees2) n \<Longrightarrow>
     \<forall>m \<in> set candidates. 0 \<le> m \<and> m < int n \<Longrightarrow>
     \<forall>m \<in> set result. 0 \<le> m \<and> m < int n"
proof (induction "is" arbitrary: candidates)
  case Nil
  then show ?case by simp
next
  case (Cons i "is")
  show ?case
  proof (cases "left (anodes ! i) \<ge> 0 \<or> prod (anodes ! i) \<notin> set contentwordprods")
    case True
    with Cons.prems(1)
    have "twoterminals_outer alen anodes trees2 contentwordprods lexicalprods is candidates
            = Inr result"
      by (auto split: if_splits)
    from Cons.IH [OF this Cons.prems(2,3)] show ?thesis .
  next
    case False
    with Cons.prems(1) obtain tmp c1 where
      tmp: "pyget (treeswithprod trees2) (prod (anodes ! i)) = Inr tmp"
      and c1: "twoterminals_inner alen anodes trees2 lexicalprods i tmp [0..<alen] candidates
                 = Inr c1"
      and rest: "twoterminals_outer alen anodes trees2 contentwordprods lexicalprods is c1
                 = Inr result"
      by (auto split: if_splits sum.splits)
    from pyget_member [OF tmp] Cons.prems(2) have "\<forall>m \<in> set tmp. 0 \<le> m \<and> m < int n"
      by (auto simp: members_below_def)
    from twoterminals_inner_below [OF c1 Cons.prems(3) this]
    have "\<forall>m \<in> set c1. 0 \<le> m \<and> m < int n" .
    from Cons.IH [OF rest Cons.prems(2) this] show ?thesis .
  qed
qed

lemma twoterminals_below:
  assumes "twoterminals alen anodes trees2 contentwordprods lexicalprods = Inr result"
    and "members_below (treeswithprod trees2) n"
  shows "\<forall>m \<in> set result. 0 \<le> m \<and> m < int n"
  using twoterminals_outer_below [OF assms(1) [unfolded twoterminals_def] assms(2)] by simp

section \<open>Renumbering the leaves of a discontinuous fragment\<close>

subsection \<open>Regular expressions\<close>

text \<open>
  The patterns of the module are built from literal bytes, byte classes (also repeated with
  \<open>+\<close>), alternatives, optional non-capturing groups, capturing groups, the word boundary
  \<open>\b\<close> and the end \<open>$\<close> (the end of the input or the position before a final newline). \<open>rx_match\<close>
  is a backtracking matcher in the order of Python's \<open>re\<close>: \<open>+\<close> and \<open>?\<close> are greedy and give
  back what they took when the rest of the pattern fails. It passes on the byte before
  the current position (for \<open>\b\<close>), the rest of the input, and the groups captured so far.
\<close>

datatype rx =
    Chr char
  | Cls "char \<Rightarrow> bool"
  | Plus1 "char \<Rightarrow> bool"
  | Seq rx rx
  | Alt rx rx
  | Opt rx
  | Grp rx
  | WordB
  | Eol

definition is_word :: "char option \<Rightarrow> bool" where
  "is_word c = (case c of None \<Rightarrow> False
     | Some x \<Rightarrow> x \<in> set ''abcdefghijklmnopqrstuvwxyzABCDEFGHIJKLMNOPQRSTUVWXYZ0123456789_'')"

fun plus_try ::
  "nat \<Rightarrow> string \<Rightarrow> string list \<Rightarrow> (char option \<Rightarrow> string \<Rightarrow> string list \<Rightarrow> 'r option)
    \<Rightarrow> 'r option" where
  "plus_try 0 s caps k = None"
| "plus_try (Suc n) s caps k =
     (case k (Some (s ! n)) (drop (Suc n) s) caps of
        Some r \<Rightarrow> Some r
      | None \<Rightarrow> plus_try n s caps k)"

fun rx_run ::
  "rx \<Rightarrow> char option \<Rightarrow> string \<Rightarrow> string list
    \<Rightarrow> (char option \<Rightarrow> string \<Rightarrow> string list \<Rightarrow> 'r option) \<Rightarrow> 'r option" where
  "rx_run (Chr c) prev s caps k =
     (case s of [] \<Rightarrow> None | x # xs \<Rightarrow> if x = c then k (Some x) xs caps else None)"
| "rx_run (Cls p) prev s caps k =
     (case s of [] \<Rightarrow> None | x # xs \<Rightarrow> if p x then k (Some x) xs caps else None)"
| "rx_run (Plus1 p) prev s caps k = plus_try (length (takeWhile p s)) s caps k"
| "rx_run (Seq r1 r2) prev s caps k =
     rx_run r1 prev s caps (\<lambda>prev' s' caps'. rx_run r2 prev' s' caps' k)"
| "rx_run (Alt r1 r2) prev s caps k =
     (case rx_run r1 prev s caps k of Some x \<Rightarrow> Some x | None \<Rightarrow> rx_run r2 prev s caps k)"
| "rx_run (Opt r) prev s caps k =
     (case rx_run r prev s caps k of Some x \<Rightarrow> Some x | None \<Rightarrow> k prev s caps)"
| "rx_run (Grp r) prev s caps k =
     rx_run r prev s caps
       (\<lambda>prev' s' caps'. k prev' s' (caps' @ [take (length s - length s') s]))"
| "rx_run WordB prev s caps k =
     (if is_word prev \<noteq> is_word (case s of [] \<Rightarrow> None | x # _ \<Rightarrow> Some x)
      then k prev s caps else None)"
| "rx_run Eol prev s caps k =
     (if s = [] \<or> s = [CHR 0x0A] then k prev s caps else None)"

text \<open>A match at the start of \<open>s\<close>: its length and its groups.\<close>

definition rx_match :: "rx \<Rightarrow> char option \<Rightarrow> string \<Rightarrow> (nat \<times> string list) option" where
  "rx_match r prev s =
     rx_run r prev s [] (\<lambda>prev' s' caps. Some (length s - length s', caps))"

text \<open>
  The non-overlapping matches of a pattern, from left to right, as \<open>findall\<close> and \<open>sub\<close>
  visit them: the input becomes a list of matches (their groups) and of bytes outside any
  match. \<open>skip\<close> counts the bytes still covered by the last match. None of the patterns
  below matches the empty string.
\<close>

fun rx_tokens :: "rx \<Rightarrow> char option \<Rightarrow> string \<Rightarrow> nat \<Rightarrow> (string list + char) list" where
  "rx_tokens r prev [] skip = []"
| "rx_tokens r prev (x # xs) skip =
     (if skip > 0 then rx_tokens r (Some x) xs (skip - 1)
      else (case rx_match r prev (x # xs) of
              None \<Rightarrow> Inr x # rx_tokens r (Some x) xs 0
            | Some (n, caps) \<Rightarrow>
                if n = 0 then Inl caps # Inr x # rx_tokens r (Some x) xs 0
                else Inl caps # rx_tokens r (Some x) xs (n - 1)))"

definition findall :: "rx \<Rightarrow> string \<Rightarrow> string list list" where
  "findall r s = [caps. Inl caps \<leftarrow> rx_tokens r None s 0]"

fun sub_tokens :: "(string list \<Rightarrow> error + string) \<Rightarrow> (string list + char) list \<Rightarrow> error + string"
  where
  "sub_tokens repl [] = Inr []"
| "sub_tokens repl (Inr c # ts) =
     (case sub_tokens repl ts of Inl e \<Rightarrow> Inl e | Inr out \<Rightarrow> Inr (c # out))"
| "sub_tokens repl (Inl caps # ts) =
     (case repl caps of
        Inl e \<Rightarrow> Inl e
      | Inr new \<Rightarrow> (case sub_tokens repl ts of Inl e \<Rightarrow> Inl e | Inr out \<Rightarrow> Inr (new @ out)))"

definition rx_sub :: "rx \<Rightarrow> (string list \<Rightarrow> error + string) \<Rightarrow> string \<Rightarrow> error + string" where
  "rx_sub r repl s = sub_tokens repl (rx_tokens r None s 0)"

definition digit :: "char \<Rightarrow> bool" where
  "digit c = (c \<in> set ''0123456789'')"

definition FRONTIERORTERMRE :: rx where
  "FRONTIERORTERMRE =
     Seq (Chr CHR '' '') (Seq (Grp (Plus1 digit))
       (Seq (Opt (Seq (Chr CHR '':'') (Plus1 digit))) WordB))"

definition TERMINDICESRE :: rx where
  "TERMINDICESRE =
     Seq (Chr CHR ''('') (Seq (Plus1 (\<lambda>c. c \<noteq> CHR ''(''))
       (Seq (Chr CHR '' '') (Seq (Grp (Plus1 digit)) (Chr CHR '')''))))"

definition FRONTIERRE :: rx where
  "FRONTIERRE =
     Seq (Chr CHR '' '') (Seq (Grp (Plus1 digit))
       (Seq (Chr CHR '':'') (Seq (Grp (Plus1 digit)) WordB)))"


subsection \<open>\<open>getsent\<close>\<close>

text \<open>
  \<open>int(x)\<close> of a string of decimal digits, and \<open>'%d' % m\<close>.
\<close>

definition str_to_nat :: "string \<Rightarrow> nat" where
  "str_to_nat s = foldl (\<lambda>n c. 10 * n + (of_char c - 48)) 0 s"

function digits :: "nat \<Rightarrow> string" where
  "digits n = (if n < 10 then [char_of (48 + n)]
               else digits (n div 10) @ [char_of (48 + n mod 10)])"
  by pat_completeness auto
termination
  by (relation "measure id") auto

declare digits.simps [simp del]

text \<open>
  A Python dict is the list of its items in insertion order; storing under a key that is
  present replaces the value in place.
\<close>

fun dict_set :: "'k \<Rightarrow> 'v \<Rightarrow> ('k \<times> 'v) list \<Rightarrow> ('k \<times> 'v) list" where
  "dict_set k v [] = [(k, v)]"
| "dict_set k v ((k', v') # d) = (if k = k' then (k, v) # d else (k', v') # dict_set k v d)"

definition getsent_leaves :: "string \<Rightarrow> nat list" where
  "getsent_leaves frag = map (\<lambda>caps. str_to_nat (caps ! 0)) (findall TERMINDICESRE frag)"

definition getsent_spans :: "string \<Rightarrow> (nat \<times> nat) list" where
  "getsent_spans frag =
     fold (\<lambda>n d. dict_set n (n + 1) d) (getsent_leaves frag)
       (fold (\<lambda>caps d. dict_set (str_to_nat (caps ! 0)) (str_to_nat (caps ! 1) + 1) d)
          (findall FRONTIERRE frag) [])"

fun getsent_loop ::
  "nat list \<Rightarrow> (nat \<times> nat) list \<Rightarrow> nat list \<Rightarrow> string option list \<Rightarrow> nat
    \<Rightarrow> string option list \<Rightarrow> (nat \<times> string) list \<Rightarrow> nat
    \<Rightarrow> error + (string option list \<times> (nat \<times> string) list)" where
  "getsent_loop [] spans leaves sent maxl newsent leafmap m = Inr (newsent, leafmap)"
| "getsent_loop (n # ns) spans leaves sent maxl newsent leafmap m =
     (case (if n \<in> set leaves then pyget sent (int n) else Inr None) of
        Inl e \<Rightarrow> Inl e
      | Inr w \<Rightarrow>
         (case map_of spans n of
            None \<Rightarrow> Inl KeyError
          | Some e \<Rightarrow>
             if map_of spans e = None \<and> n \<noteq> maxl
             then getsent_loop ns spans leaves sent maxl (newsent @ [w, None])
                    (dict_set n ('' '' @ digits m) leafmap) (m + 2)
             else getsent_loop ns spans leaves sent maxl (newsent @ [w])
                    (dict_set n ('' '' @ digits m) leafmap) (m + 1)))"

definition repl :: "(nat \<times> string) list \<Rightarrow> string list \<Rightarrow> error + string" where
  "repl d caps = (case map_of d (str_to_nat (caps ! 0)) of None \<Rightarrow> Inl KeyError | Some v \<Rightarrow> Inr v)"

definition getsent :: "string \<Rightarrow> string option list \<Rightarrow> error + (string \<times> string option list)" where
  "getsent frag sent =
     (let spans = getsent_spans frag; leaves = getsent_leaves frag in
      if spans = [] then Inl (ValueError ''max() arg is an empty sequence'')
      else
        (case getsent_loop (sort (map fst spans)) spans leaves sent (Max (set (map fst spans)))
                [] [] 0 of
           Inl e \<Rightarrow> Inl e
         | Inr (newsent, leafmap) \<Rightarrow>
            (case rx_sub FRONTIERORTERMRE (repl leafmap) frag of
               Inl e \<Rightarrow> Inl e
             | Inr frag' \<Rightarrow> Inr (frag', newsent))))"



subsection \<open>Claim C5\<close>


























section \<open>Extraction for a pair of trees\<close>

text \<open>
  A fragment leaves the C code as a byte string: the \<open>SLOTS\<close> words of the bitset followed by
  the six bytes of the packed \<open>BitsetTail\<close>, the tree number \<open>id\<close> (a \<open>uint32_t\<close>) and the
  \<open>root\<close> of the fragment (a \<open>short\<close>). The tail lies in the buffer itself, in the word after
  the bitset: on a little-endian machine \<open>id\<close> is its bits 0 to 31 and \<open>root\<close> its bits 32 to
  47. \<open>setrootid\<close> writes the two fields and leaves the upper 16 bits of the word as they
  are; its arguments are C integers that are cut to the width of the fields. \<open>wrap\<close> copies
  the bitset and the tail; \<open>getid\<close>, \<open>getroot\<close> and \<open>getpointer\<close> read the parts back.
\<close>

record wrapped =
  w_bits :: bitset
  w_id :: int
  w_root :: int

definition tail_word :: "64 word \<Rightarrow> int \<Rightarrow> int \<Rightarrow> 64 word" where
  "tail_word old root0 id0 =
     push_bit 48 (drop_bit 48 old) OR push_bit 32 (take_bit 16 (word_of_int root0))
       OR take_bit 32 (word_of_int id0)"

definition tail_id :: "64 word \<Rightarrow> int" where
  "tail_id w = uint (take_bit 32 w)"

definition tail_root :: "64 word \<Rightarrow> int" where
  "tail_root w = sint (ucast (drop_bit 32 w) :: 16 word)"

definition setrootid :: "bitset \<Rightarrow> int \<Rightarrow> int \<Rightarrow> nat \<Rightarrow> bitset option" where
  "setrootid data root0 id0 SLOTS =
     (if SLOTS < length data
      then Some (data[SLOTS := tail_word (data ! SLOTS) root0 id0])
      else None)"

definition wrap :: "bitset \<Rightarrow> nat \<Rightarrow> wrapped option" where
  "wrap data SLOTS =
     (if SLOTS < length data
      then Some \<lparr>w_bits = take SLOTS data, w_id = tail_id (data ! SLOTS),
                 w_root = tail_root (data ! SLOTS)\<rparr>
      else None)"

definition getid :: "wrapped \<Rightarrow> int" where
  "getid w = w_id w"

definition getroot :: "wrapped \<Rightarrow> int" where
  "getroot w = w_root w"

definition getpointer :: "wrapped \<Rightarrow> bitset" where
  "getpointer w = w_bits w"

text \<open>
  The loop of \<open>extractbitsets\<close> over the set bits \<open>i\<close> of row \<open>j\<close>. \<open>adds\<close> lists the
  arguments of the calls \<open>results.add\<close> in the order in which they are made; the set
  \<open>results\<close> of the source is the set of this list. \<open>starts\<close> records the node pairs
  \<open>(i, j)\<close> handed to \<open>extractat\<close> by this loop; the source keeps no such record, it is
  there for the statements about the loop.
\<close>

partial_function (option) extractbitsets_loop ::
  "bitset \<Rightarrow> bitset \<Rightarrow> Node list \<Rightarrow> Node list \<Rightarrow> int \<Rightarrow> int \<Rightarrow> int \<Rightarrow> nat
    \<Rightarrow> 64 word \<Rightarrow> nat \<Rightarrow> int \<Rightarrow> wrapped list \<Rightarrow> (int \<times> int) list
    \<Rightarrow> (bitset \<times> bitset \<times> wrapped list \<times> (int \<times> int) list) option" where
  "extractbitsets_loop matrix scratch a b j n minterms SLOTS cur idx i adds starts =
     (if i = - 1 then Some (matrix, scratch, adds, starts)
      else do {
        scratch \<leftarrow> memset0 scratch SLOTS;
        (matrix, scratch, terms) \<leftarrow> extractat matrix scratch a b i j SLOTS;
        (scratch, adds) \<leftarrow>
          (if terms \<ge> minterms then do {
             scratch \<leftarrow> setrootid scratch i n SLOTS;
             w \<leftarrow> wrap scratch SLOTS;
             Some (scratch, adds @ [w])
           }
           else Some (scratch, adds));
        nj \<leftarrow> ix j;
        (i', cur, idx) \<leftarrow> iteratesetbits matrix (nj * SLOTS) SLOTS cur idx;
        extractbitsets_loop matrix scratch a b j n minterms SLOTS cur idx i' adds
          (starts @ [(i, j)])
      })"

partial_function (option) extractbitsets ::
  "bitset \<Rightarrow> Node list \<Rightarrow> Node list \<Rightarrow> int \<Rightarrow> int \<Rightarrow> int \<Rightarrow> bitset \<Rightarrow> nat
    \<Rightarrow> wrapped list \<Rightarrow> (int \<times> int) list
    \<Rightarrow> (bitset \<times> bitset \<times> wrapped list \<times> (int \<times> int) list) option" where
  "extractbitsets matrix a b j n minterms scratch SLOTS adds starts = do {
     nj \<leftarrow> ix j;
     cur \<leftarrow> rd matrix (int (nj * SLOTS));
     (i, cur, idx) \<leftarrow> iteratesetbits matrix (nj * SLOTS) SLOTS cur 0;
     (matrix, scratch, adds, starts) \<leftarrow>
       extractbitsets_loop matrix scratch a b j n minterms SLOTS cur idx i adds starts;
     bj \<leftarrow> rd b j;
     if left bj \<ge> 0 then do {
       (matrix, scratch, adds, starts) \<leftarrow>
         extractbitsets matrix a b (left bj) n minterms scratch SLOTS adds starts;
       if right bj \<ge> 0
       then extractbitsets matrix a b (right bj) n minterms scratch SLOTS adds starts
       else Some (matrix, scratch, adds, starts)
     }
     else Some (matrix, scratch, adds, starts)
   }"

declare extractbitsets_loop.simps [code]
declare extractbitsets.simps [code]

text \<open>
  Modelled from the spec: \<open>setunioninplace\<close> of the module \<open>bit\<close> is not among the sources;
  the spec calls it the union in place of two bitsets of \<open>SLOTS\<close> words.
\<close>

definition setunioninplace :: "bitset \<Rightarrow> bitset \<Rightarrow> nat \<Rightarrow> bitset option" where
  "setunioninplace dest src SLOTS =
     (if SLOTS \<le> length dest \<and> SLOTS \<le> length src
      then Some (map2 (OR) (take SLOTS dest) (take SLOTS src) @ drop SLOTS dest)
      else None)"

text \<open>
  \<open>extractcompbitsets\<close> follows the complement of \<open>bitset\<close> in tree \<open>a\<close>. Its argument
  \<open>scratch\<close> is a pointer or \<open>NULL\<close>; the buffer behind the pointer is shared with the
  caller, so the function returns its contents. A buffer that the function allocates itself
  is wrapped and freed before it returns. \<open>malloc\<close> hands out uninitialised memory: the words
  \<open>junk 0\<close>, \<open>junk 1\<close>, ...
\<close>

definition malloc :: "(nat \<Rightarrow> 64 word) \<Rightarrow> nat \<Rightarrow> bitset" where
  "malloc junk n = map junk [0..<n]"

partial_function (option) extractcompbitsets ::
  "(nat \<Rightarrow> 64 word) \<Rightarrow> bitset \<Rightarrow> Node list \<Rightarrow> int \<Rightarrow> int \<Rightarrow> wrapped list \<Rightarrow> nat
    \<Rightarrow> bitset option \<Rightarrow> (bitset option \<times> wrapped list) option" where
  "extractcompbitsets junk bitset a i n adds SLOTS scratch = do {
     ni \<leftarrow> ix i;
     t \<leftarrow> TESTBIT bitset 0 ni;
     cur \<leftarrow> (if scratch = None \<and> \<not> t
              then do {
                own \<leftarrow> setrootid (malloc junk (SLOTS + 2)) i n SLOTS;
                map_option Some (SETBIT own 0 ni)
              }
              else if t then Some None
              else (case scratch of
                      None \<Rightarrow> Some None
                    | Some buf \<Rightarrow> map_option Some (SETBIT buf 0 ni)));
     ai \<leftarrow> rd a i;
     (cur, adds) \<leftarrow>
       (if left ai \<ge> 0 then do {
          (cur, adds) \<leftarrow> extractcompbitsets junk bitset a (left ai) n adds SLOTS cur;
          if right ai \<ge> 0
          then extractcompbitsets junk bitset a (right ai) n adds SLOTS cur
          else Some (cur, adds)
        }
        else Some (cur, adds));
     if scratch = None \<and> \<not> t
     then (case cur of
             None \<Rightarrow> None
           | Some own \<Rightarrow> do {
               w \<leftarrow> wrap own SLOTS;
               Some (scratch, adds @ [w])
             })
     else Some (if t then scratch else cur, adds)
   }"

declare extractcompbitsets.simps [code]


text \<open>
  The first half of \<open>extractfrompair\<close>: the table is cleared and filled, and the bitsets of
  the maximal common fragments are extracted. \<open>anodes\<close> and \<open>bnodes\<close> are pointers into the
  node pools, that is the pools from the offset of the tree on. A negative \<open>b.len\<close> makes the
  size that \<open>memset\<close> gets wrap around to a huge unsigned number, which is a fault; the
  comparisons of \<open>fasttreekernel\<close> with a length that is not positive come out as with 0.
\<close>

definition extractfrompair_bitsets ::
  "NodeArray \<Rightarrow> Node list \<Rightarrow> Ctrees \<Rightarrow> int \<Rightarrow> int \<Rightarrow> int \<Rightarrow> bitset \<Rightarrow> bitset \<Rightarrow> nat
    \<Rightarrow> (bitset \<times> bitset \<times> wrapped list \<times> (int \<times> int) list) option" where
  "extractfrompair_bitsets a anodes trees2 n m minterms matrix scratch SLOTS = do {
     b \<leftarrow> rd (trees trees2) m;
     matrix \<leftarrow> (if len b < 0 then None else memset0 matrix (nat (len b) * SLOTS));
     matrix \<leftarrow> fasttreekernel anodes (drop (offset b) (nodes trees2)) (nat (len a)) (nat (len b))
       matrix SLOTS;
     extractbitsets matrix anodes (drop (offset b) (nodes trees2)) (root b) n minterms scratch
       SLOTS [] []
   }"

fun union_all :: "wrapped list \<Rightarrow> nat \<Rightarrow> bitset \<Rightarrow> bitset option" where
  "union_all [] SLOTS scratch = Some scratch"
| "union_all (w # ws) SLOTS scratch =
     (case setunioninplace scratch (getpointer w) SLOTS of
        None \<Rightarrow> None
      | Some scratch' \<Rightarrow> union_all ws SLOTS scratch')"

definition extractfrompair ::
  "(nat \<Rightarrow> 64 word) \<Rightarrow> NodeArray \<Rightarrow> Node list \<Rightarrow> Ctrees \<Rightarrow> int \<Rightarrow> int \<Rightarrow> bool
    \<Rightarrow> wrapped list \<Rightarrow> int \<Rightarrow> bitset \<Rightarrow> bitset \<Rightarrow> nat
    \<Rightarrow> (wrapped list \<times> bitset \<times> bitset) option" where
  "extractfrompair junk a anodes trees2 n m complement intr minterms matrix scratch SLOTS = do {
     (matrix, scratch, adds, starts) \<leftarrow>
       extractfrompair_bitsets a anodes trees2 n m minterms matrix scratch SLOTS;
     if complement then do {
       scratch \<leftarrow> memset0 scratch SLOTS;
       scratch \<leftarrow> union_all (fold set_add adds intr) SLOTS scratch;
       (_, cadds) \<leftarrow> extractcompbitsets junk scratch anodes (root a) n [] SLOTS None;
       Some (fold set_add cadds (fold set_add adds intr), matrix, scratch)
     }
     else Some (fold set_add adds intr, matrix, scratch)
   }"

section \<open>Rendering fragments\<close>

definition termidx :: "int \<Rightarrow> int" where
  "termidx x = - x - 1"

partial_function (option) getyield :: "Node list \<Rightarrow> int \<Rightarrow> int list option" where
  "getyield tree i = do {
     ti \<leftarrow> rd tree i;
     if left ti < 0 then Some [termidx (left ti)]
     else if right ti < 0 then getyield tree (left ti)
     else do {
       l \<leftarrow> getyield tree (left ti);
       r \<leftarrow> getyield tree (right ti);
       Some (l @ r)
     }
   }"

text \<open>
  \<open>getsubtree\<close> returns the bytes it appends to \<open>result\<close>. \<open>yieldranges\<close> belongs to the
  module \<open>containers\<close>, which is not among the sources; it is a parameter. A Python
  exception inside the recursion is \<open>Some (Inl e)\<close>.
\<close>

partial_function (option) getsubtree ::
  "(int list \<Rightarrow> string) \<Rightarrow> Node list \<Rightarrow> bitset \<Rightarrow> string list \<Rightarrow> string option list option
    \<Rightarrow> int \<Rightarrow> (error + string) option" where
  "getsubtree yieldranges tree bitset labels sent i = do {
     ti \<leftarrow> rd tree i;
     (case pyget labels (prod ti) of
        Inl e \<Rightarrow> Some (Inl e)
      | Inr label \<Rightarrow> do {
         ni \<leftarrow> ix i;
         t \<leftarrow> TESTBIT bitset 0 ni;
         if t then
           (if left ti \<ge> 0 then do {
              l \<leftarrow> getsubtree yieldranges tree bitset labels sent (left ti);
              (case l of
                 Inl e \<Rightarrow> Some (Inl e)
               | Inr ls \<Rightarrow>
                  if right ti \<ge> 0 then do {
                    r \<leftarrow> getsubtree yieldranges tree bitset labels sent (right ti);
                    (case r of
                       Inl e \<Rightarrow> Some (Inl e)
                     | Inr rs \<Rightarrow> Some (Inr (''('' @ label @ '' '' @ ls @ '' '' @ rs @ '')'')))
                  }
                  else Some (Inr (''('' @ label @ '' '' @ ls @ '')'')))
            }
            else (case sent of
               None \<Rightarrow>
                 Some (Inr (''('' @ label @ '' '' @ digits (nat (termidx (left ti))) @ '')''))
             | Some ws \<Rightarrow>
                (case pyget ws (termidx (left ti)) of
                   Inl e \<Rightarrow> Some (Inl e)
                 | Inr None \<Rightarrow> Some (Inl AttributeError)
                 | Inr (Some w) \<Rightarrow> Some (Inr (''('' @ label @ '' '' @ w @ '')'')))))
         else (case sent of
            None \<Rightarrow> do {
              y \<leftarrow> getyield tree i;
              Some (Inr (''('' @ label @ '' '' @ yieldranges (sort y) @ '')''))
            }
          | Some ws \<Rightarrow> Some (Inr (''('' @ label @ '' '' @ '')'')))
       })
   }"

declare getyield.simps [code]
declare getsubtree.simps [code]

text \<open>
  The key of a fragment in the result: the bracketed string, and in discontinuous mode the
  pair that \<open>getsent\<close> returns. The value is a count (approximate mode) or the bitset.
\<close>

datatype fragkey = Plain string | Disc string "string option list"

datatype fragval = Count nat | Bits wrapped

definition fragment_key ::
  "(int list \<Rightarrow> string) \<Rightarrow> Node list \<Rightarrow> bitset \<Rightarrow> string list \<Rightarrow> string option list \<Rightarrow> bool
    \<Rightarrow> int \<Rightarrow> error + fragkey" where
  "fragment_key yieldranges tree bitset labels sent discontinuous i =
     (case getsubtree yieldranges tree bitset labels (if discontinuous then None else Some sent) i
      of None \<Rightarrow> Inl MemoryFault
       | Some (Inl e) \<Rightarrow> Inl e
       | Some (Inr tmp) \<Rightarrow>
          if discontinuous
          then (case getsent tmp sent of Inl e \<Rightarrow> Inl e | Inr (f, s) \<Rightarrow> Inr (Disc f s))
          else Inr (Plain tmp))"

fun collectfragments ::
  "(int list \<Rightarrow> string) \<Rightarrow> (fragkey \<times> fragval) list \<Rightarrow> wrapped list \<Rightarrow> Node list
    \<Rightarrow> string option list \<Rightarrow> string list \<Rightarrow> bool \<Rightarrow> bool
    \<Rightarrow> error + (fragkey \<times> fragval) list" where
  "collectfragments yieldranges fragments [] anodes asent labels discontinuous approx =
     Inr fragments"
| "collectfragments yieldranges fragments (w # intr) anodes asent labels discontinuous approx =
     (case fragment_key yieldranges anodes (getpointer w) labels asent discontinuous (getroot w)
      of Inl e \<Rightarrow> Inl e
       | Inr frag \<Rightarrow>
          collectfragments yieldranges
            (if approx then
               dict_set frag
                 (Count (case map_of fragments frag of Some (Count c) \<Rightarrow> c + 1 | _ \<Rightarrow> 1))
                 fragments
             else if map_of fragments frag = None then dict_set frag (Bits w) fragments
             else fragments)
            intr anodes asent labels discontinuous approx)"

section \<open>The driver\<close>

text \<open>
  The two patterns of \<open>extractfragments\<close>, applied with \<open>match\<close> to every label:
  \<open>^(?:NN(?:[PS]|PS)?|(?:JJ|RB)[RS]?|VB[DGNPZ])$\<close> and \<open>^[A-Z]+$\<close>.
\<close>

definition contentword :: rx where
  "contentword =
     Seq (Alt (Seq (Seq (Chr CHR ''N'') (Chr CHR ''N''))
                   (Opt (Alt (Cls (\<lambda>c. c \<in> set ''PS'')) (Seq (Chr CHR ''P'') (Chr CHR ''S'')))))
         (Alt (Seq (Alt (Seq (Chr CHR ''J'') (Chr CHR ''J'')) (Seq (Chr CHR ''R'') (Chr CHR ''B'')))
                   (Opt (Cls (\<lambda>c. c \<in> set ''RS''))))
              (Seq (Seq (Chr CHR ''V'') (Chr CHR ''B'')) (Cls (\<lambda>c. c \<in> set ''DGNPZ'')))))
       Eol"

definition lexical :: rx where
  "lexical = Seq (Plus1 (\<lambda>c. c \<in> set ''ABCDEFGHIJKLMNOPQRSTUVWXYZ'')) Eol"

definition matching_labels :: "rx \<Rightarrow> string list \<Rightarrow> int list" where
  "matching_labels r labels =
     [int n. (n, label) \<leftarrow> enumerate 0 labels, rx_match r None label \<noteq> None]"

definition illegal_index :: "int \<Rightarrow> error" where
  "illegal_index m =
     ValueError (''illegal index '' @ (if m < 0 then ''-'' else []) @ digits (nat \<bar>m\<bar>))"

text \<open>\<open>range(offset, min(end or trees1.len, trees1.len))\<close>\<close>

definition work_range :: "Ctrees \<Rightarrow> int \<Rightarrow> int \<Rightarrow> int list" where
  "work_range trees1 off end0 =
     [off..min (if end0 \<noteq> 0 then end0 else int (clen trees1)) (int (clen trees1)) - 1]"

text \<open>
  The loops over the second tree \<open>m\<close> of a pair. The state that they pass on is the set
  \<open>inter\<close> of wrapped bitsets (here \<open>intr\<close>) and the two buffers.
\<close>

fun all_pairs ::
  "(nat \<Rightarrow> 64 word) \<Rightarrow> NodeArray \<Rightarrow> Node list \<Rightarrow> Ctrees \<Rightarrow> int \<Rightarrow> bool \<Rightarrow> int \<Rightarrow> nat
    \<Rightarrow> int list \<Rightarrow> wrapped list \<times> bitset \<times> bitset
    \<Rightarrow> error + wrapped list \<times> bitset \<times> bitset" where
  "all_pairs junk a anodes trees2 n complement minterms SLOTS [] st = Inr st"
| "all_pairs junk a anodes trees2 n complement minterms SLOTS (m # ms) (intr, matrix, scratch) =
     (case extractfrompair junk a anodes trees2 n m complement intr minterms matrix scratch SLOTS
      of None \<Rightarrow> Inl MemoryFault
       | Some st \<Rightarrow> all_pairs junk a anodes trees2 n complement minterms SLOTS ms st)"

fun twoterms_pairs ::
  "(nat \<Rightarrow> 64 word) \<Rightarrow> NodeArray \<Rightarrow> Node list \<Rightarrow> Ctrees \<Rightarrow> int \<Rightarrow> bool \<Rightarrow> int \<Rightarrow> nat \<Rightarrow> bool
    \<Rightarrow> int list \<Rightarrow> wrapped list \<times> bitset \<times> bitset
    \<Rightarrow> error + wrapped list \<times> bitset \<times> bitset" where
  "twoterms_pairs junk a anodes trees2 n complement minterms SLOTS nosents2 [] st = Inr st"
| "twoterms_pairs junk a anodes trees2 n complement minterms SLOTS nosents2 (m # ms)
       (intr, matrix, scratch) =
     (if nosents2 \<and> m \<le> n
      then twoterms_pairs junk a anodes trees2 n complement minterms SLOTS nosents2 ms
             (intr, matrix, scratch)
      else if m < 0 \<or> m \<ge> int (clen trees2) then Inl (illegal_index m)
      else (case extractfrompair junk a anodes trees2 n m complement intr minterms matrix scratch
                  SLOTS
            of None \<Rightarrow> Inl MemoryFault
             | Some st \<Rightarrow>
                twoterms_pairs junk a anodes trees2 n complement minterms SLOTS nosents2 ms st))"

text \<open>
  One round of the loop over the trees \<open>n\<close> of \<open>trees1\<close>. The flag \<open>debug\<close> only prints and
  is left out; of \<open>sents2\<close> the code then uses only whether it is \<open>None\<close>.
\<close>

definition extractfragments_tree ::
  "(nat \<Rightarrow> 64 word) \<Rightarrow> (int list \<Rightarrow> string) \<Rightarrow> Ctrees \<Rightarrow> string option list list \<Rightarrow> string list
    \<Rightarrow> Ctrees \<Rightarrow> bool \<Rightarrow> bool \<Rightarrow> bool \<Rightarrow> bool \<Rightarrow> bool \<Rightarrow> bool \<Rightarrow> int list \<Rightarrow> int list
    \<Rightarrow> int \<Rightarrow> nat \<Rightarrow> int \<Rightarrow> (fragkey \<times> fragval) list \<times> bitset \<times> bitset
    \<Rightarrow> error + (fragkey \<times> fragval) list \<times> bitset \<times> bitset" where
  "extractfragments_tree junk yieldranges trees1 sents1 labels trees2 nosents2 approx
       discontinuous complement twoterms adjacent contentwordprods lexicalprods minterms SLOTS n st =
     (case st of (fragments, matrix, scratch) \<Rightarrow>
      (case rd (trees trees1) n of
         None \<Rightarrow> Inl MemoryFault
       | Some a \<Rightarrow>
          (case pyget sents1 n of
             Inl e \<Rightarrow> Inl e
           | Inr asent \<Rightarrow>
              (case
                 (if adjacent then
                    (if n + 1 < int (clen trees2) then
                       (case extractfrompair junk a (drop (offset a) (nodes trees1)) trees2 n
                               (n + 1) complement [] minterms matrix scratch SLOTS
                        of None \<Rightarrow> Inl MemoryFault | Some st' \<Rightarrow> Inr st')
                     else Inr ([], matrix, scratch))
                  else if twoterms then
                    (case twoterminals (nat (len a)) (drop (offset a) (nodes trees1)) trees2
                            contentwordprods lexicalprods
                     of Inl e \<Rightarrow> Inl e
                      | Inr candidates \<Rightarrow>
                         twoterms_pairs junk a (drop (offset a) (nodes trees1)) trees2 n
                           complement minterms SLOTS nosents2 candidates ([], matrix, scratch))
                  else
                    all_pairs junk a (drop (offset a) (nodes trees1)) trees2 n complement
                      minterms SLOTS [(if nosents2 then n + 1 else 0)..int (clen trees2) - 1]
                      ([], matrix, scratch))
               of Inl e \<Rightarrow> Inl e
                | Inr (intr, matrix', scratch') \<Rightarrow>
                   (case collectfragments yieldranges fragments intr
                           (drop (offset a) (nodes trees1)) asent labels discontinuous approx
                    of Inl e \<Rightarrow> Inl e
                     | Inr fragments' \<Rightarrow> Inr (fragments', matrix', scratch'))))))"

fun extractfragments_loop ::
  "(int \<Rightarrow> 's \<Rightarrow> error + 's) \<Rightarrow> int list \<Rightarrow> 's \<Rightarrow> error + 's" where
  "extractfragments_loop step [] st = Inr st"
| "extractfragments_loop step (n # ns) st =
     (case step n st of Inl e \<Rightarrow> Inl e | Inr st' \<Rightarrow> extractfragments_loop step ns st')"

definition extractfragments ::
  "(nat \<Rightarrow> 64 word) \<Rightarrow> (int list \<Rightarrow> string) \<Rightarrow> Ctrees \<Rightarrow> string option list list \<Rightarrow> int \<Rightarrow> int
    \<Rightarrow> string list \<Rightarrow> Ctrees option \<Rightarrow> string option list list option
    \<Rightarrow> bool \<Rightarrow> bool \<Rightarrow> bool \<Rightarrow> bool \<Rightarrow> bool \<Rightarrow> error + (fragkey \<times> fragval) list" where
  "extractfragments junk yieldranges trees1 sents1 off end0 labels trees2opt sents2 approx
       discontinuous complement twoterms adjacent =
     (let trees2 = (case trees2opt of None \<Rightarrow> trees1 | Some t \<Rightarrow> t);
          SLOTS = BITNSLOTS (max (maxnodes trees1) (maxnodes trees2) + 1)
      in case extractfragments_loop
           (extractfragments_tree junk yieldranges trees1 sents1 labels trees2 (sents2 = None)
              approx discontinuous complement twoterms adjacent
              (if twoterms then matching_labels contentword labels else [])
              (if twoterms then matching_labels lexical labels else [])
              (if twoterms then 2 else 0) SLOTS)
           (work_range trees1 off end0)
           ([], malloc junk (maxnodes trees2 * SLOTS), malloc junk (SLOTS + 2))
         of Inl e \<Rightarrow> Inl e
          | Inr (fragments, _, _) \<Rightarrow> Inr fragments)"

subsection \<open>Claim C9\<close>

text \<open>The errors that the parts of the driver other than the index check can raise.\<close>

definition other_error :: "error \<Rightarrow> bool" where
  "other_error e =
     (e = MemoryFault \<or> e = IndexError \<or> e = KeyError \<or> e = AttributeError \<or>
      e = ValueError ''max() arg is an empty sequence'')"

lemma other_error_not_illegal: "other_error e \<Longrightarrow> e \<noteq> illegal_index m"
  by (auto simp: other_error_def illegal_index_def)

lemma pyget_error: "pyget xs i = Inl e \<Longrightarrow> e = IndexError"
  by (auto simp: pyget_def split: option.splits)

lemma pyget_other_error: "pyget xs i = Inl e \<Longrightarrow> other_error e"
  by (auto simp: other_error_def dest: pyget_error)

lemma other_error_MemoryFault: "other_error MemoryFault"
  by (simp add: other_error_def)

lemma twoterminals_inner_error:
  "twoterminals_inner alen anodes trees2 lexicalprods i tmp js candidates = Inl e \<Longrightarrow>
     other_error e"
proof (induction js arbitrary: candidates)
  case Nil
  then show ?case by simp
next
  case (Cons j js)
  then show ?case
    by (auto simp: other_error_def dest: pyget_error split: if_splits sum.splits)
qed

lemma twoterminals_outer_error:
  "twoterminals_outer alen anodes trees2 contentwordprods lexicalprods is candidates = Inl e \<Longrightarrow>
     other_error e"
proof (induction "is" arbitrary: candidates)
  case Nil
  then show ?case by simp
next
  case (Cons i "is")
  then show ?case
    by (auto simp: other_error_def dest: pyget_error twoterminals_inner_error
        split: if_splits sum.splits)
qed

lemma twoterminals_error:
  "twoterminals alen anodes trees2 contentwordprods lexicalprods = Inl e \<Longrightarrow> other_error e"
  unfolding twoterminals_def by (rule twoterminals_outer_error)

lemma getsent_loop_error:
  "getsent_loop ns spans leaves sent maxl newsent leafmap m = Inl e \<Longrightarrow> other_error e"
proof (induction ns arbitrary: newsent leafmap m)
  case Nil
  then show ?case by simp
next
  case (Cons n ns)
  then show ?case
    by (auto simp: other_error_def dest: pyget_error split: if_splits sum.splits option.splits)
qed

lemma sub_tokens_repl_error: "sub_tokens (repl d) ts = Inl e \<Longrightarrow> other_error e"
proof (induction ts)
  case Nil
  then show ?case by simp
next
  case (Cons t ts)
  then show ?case
    by (cases t) (auto simp: other_error_def repl_def split: sum.splits option.splits)
qed

lemma getsent_error: "getsent frag sent = Inl e \<Longrightarrow> other_error e"
  unfolding getsent_def Let_def rx_sub_def
  by (auto simp: other_error_def dest: getsent_loop_error sub_tokens_repl_error
      split: if_splits sum.splits prod.splits)

lemma getsubtree_error:
  assumes "getsubtree yieldranges tree bitset labels sent i = Some r"
  shows "case r of Inl e \<Rightarrow> other_error e | Inr _ \<Rightarrow> True"
proof (rule getsubtree.raw_induct
    [where P = "\<lambda>_ _ _ _ _ _ r. case r of Inl e \<Rightarrow> other_error e | Inr _ \<Rightarrow> True", OF _ assms])
  fix g :: "(int list \<Rightarrow> string) \<Rightarrow> Node list \<Rightarrow> bitset \<Rightarrow> string list \<Rightarrow> string option list option
    \<Rightarrow> int \<Rightarrow> (error + string) option"
  fix yr tree bitset labels sent i r
  assume IH: "\<And>yr tree bitset labels sent i r. g yr tree bitset labels sent i = Some r \<Longrightarrow>
     (case r of Inl e \<Rightarrow> other_error e | Inr _ \<Rightarrow> True)"
  assume body: "rd tree i \<bind>
     (\<lambda>ti. case pyget labels (prod ti) of
        Inl e \<Rightarrow> Some (Inl e)
      | Inr label \<Rightarrow> ix i \<bind> (\<lambda>ni. TESTBIT bitset 0 ni \<bind> (\<lambda>t.
         if t then
           (if left ti \<ge> 0 then g yr tree bitset labels sent (left ti) \<bind> (\<lambda>l.
              (case l of
                 Inl e \<Rightarrow> Some (Inl e)
               | Inr ls \<Rightarrow>
                  if right ti \<ge> 0 then g yr tree bitset labels sent (right ti) \<bind> (\<lambda>r.
                    (case r of
                       Inl e \<Rightarrow> Some (Inl e)
                     | Inr rs \<Rightarrow> Some (Inr (''('' @ label @ '' '' @ ls @ '' '' @ rs @ '')''))))
                  else Some (Inr (''('' @ label @ '' '' @ ls @ '')''))))
            else (case sent of
               None \<Rightarrow>
                 Some (Inr (''('' @ label @ '' '' @ digits (nat (termidx (left ti))) @ '')''))
             | Some ws \<Rightarrow>
                (case pyget ws (termidx (left ti)) of
                   Inl e \<Rightarrow> Some (Inl e)
                 | Inr None \<Rightarrow> Some (Inl AttributeError)
                 | Inr (Some w) \<Rightarrow> Some (Inr (''('' @ label @ '' '' @ w @ '')'')))))
         else (case sent of
            None \<Rightarrow> getyield tree i \<bind> (\<lambda>y.
              Some (Inr (''('' @ label @ '' '' @ yr (sort y) @ '')'')))
          | Some ws \<Rightarrow> Some (Inr (''('' @ label @ '' '' @ '')'')))))) = Some r"
  show "case r of Inl e \<Rightarrow> other_error e | Inr _ \<Rightarrow> True"
  proof (cases r)
    case (Inr s)
    then show ?thesis by simp
  next
    case (Inl e)
    with body have "e = IndexError \<or> e = AttributeError \<or>
       (\<exists>k. g yr tree bitset labels sent k = Some (Inl e))"
      by (auto dest: pyget_error split: Option.bind_splits sum.splits if_splits option.splits)
    then show ?thesis
    proof (elim disjE exE)
      fix k assume "g yr tree bitset labels sent k = Some (Inl e)"
      from IH [OF this] Inl show ?thesis by simp
    qed (simp_all add: Inl other_error_def)
  qed
qed


lemma fragment_key_error:
  "fragment_key yieldranges tree bitset labels sent discontinuous i = Inl e \<Longrightarrow> other_error e"
  unfolding fragment_key_def
  by (auto simp: other_error_def dest: getsent_error dest!: getsubtree_error
      split: option.splits sum.splits if_splits prod.splits)

lemma collectfragments_error:
  "collectfragments yieldranges fragments intr anodes asent labels discontinuous approx = Inl e
     \<Longrightarrow> other_error e"
proof (induction intr arbitrary: fragments)
  case Nil
  then show ?case by simp
next
  case (Cons w intr)
  then show ?case
    by (auto dest: fragment_key_error split: sum.splits)
qed

lemma all_pairs_error:
  "all_pairs junk a anodes trees2 n complement minterms SLOTS ms st = Inl e \<Longrightarrow> other_error e"
proof (induction ms arbitrary: st)
  case Nil
  then show ?case by simp
next
  case (Cons m ms)
  obtain intr matrix scratch where st: "st = (intr, matrix, scratch)" by (cases st)
  from Cons show ?case
    by (auto simp: st other_error_def split: option.splits)
qed

lemma twoterms_pairs_error:
  "twoterms_pairs junk a anodes trees2 n complement minterms SLOTS nosents2 ms st = Inl e \<Longrightarrow>
     \<forall>m \<in> set ms. 0 \<le> m \<and> m < int (clen trees2) \<Longrightarrow> other_error e"
proof (induction ms arbitrary: st)
  case Nil
  then show ?case by simp
next
  case (Cons m ms)
  obtain intr matrix scratch where st: "st = (intr, matrix, scratch)" by (cases st)
  from Cons.prems(2) have ok: "\<not> (m < 0 \<or> m \<ge> int (clen trees2))"
    and rest: "\<forall>m \<in> set ms. 0 \<le> m \<and> m < int (clen trees2)" by auto
  from Cons.prems(1) Cons.IH [OF _ rest] ok show ?case
    by (auto simp: st other_error_def split: option.splits if_splits)
qed

lemma extractfragments_tree_error:
  assumes "extractfragments_tree junk yieldranges trees1 sents1 labels trees2 nosents2 approx
       discontinuous complement twoterms adjacent contentwordprods lexicalprods minterms SLOTS n st
       = Inl e"
    and "members_below (treeswithprod trees2) (clen trees2)"
  shows "other_error e"
proof -
  obtain fragments matrix scratch where st: "st = (fragments, matrix, scratch)" by (cases st)
  have tw: "other_error e"
    if "twoterminals alen anodes trees2 contentwordprods lexicalprods = Inr candidates"
      "twoterms_pairs junk a anodes trees2 n complement minterms SLOTS nosents2 candidates st'
         = Inl e" for alen anodes candidates a st'
    using twoterms_pairs_error [OF that(2)] twoterminals_below [OF that(1) assms(2)] by simp
  from assms(1) show ?thesis
    unfolding extractfragments_tree_def st
    by (auto simp: other_error_MemoryFault
        dest: pyget_other_error twoterminals_error all_pairs_error collectfragments_error tw
        split: option.splits sum.splits if_splits prod.splits)
qed


lemma extractfragments_loop_error:
  "extractfragments_loop step ns st = Inl e \<Longrightarrow>
     (\<And>n st e. step n st = Inl e \<Longrightarrow> P e) \<Longrightarrow> P e"
proof (induction ns arbitrary: st)
  case Nil
  then show ?case by simp
next
  case (Cons n ns)
  show ?case
  proof (cases "step n st")
    case (Inl e')
    with Cons.prems(1) have "e' = e" by simp
    with Inl Cons.prems(2) show ?thesis by blast
  next
    case (Inr st')
    with Cons.prems(1) have "extractfragments_loop step ns st' = Inl e" by simp
    from Cons.IH [OF this Cons.prems(2)] show ?thesis .
  qed
qed

text \<open>
  C9. Let the index of \<open>trees2\<close> (which is \<open>trees1\<close> when no second treebank is given) be the
  one that \<open>indextrees\<close> built. Then every tree index that \<open>twoterminals\<close> returns lies in
  \<open>[0, trees2.len)\<close>, and \<open>extractfragments\<close> in \<open>twoterms\<close> mode never raises the
  \<open>ValueError\<close> for an illegal index.
\<close>

theorem twoterminals_index_legal:
  assumes "indextrees nprods t0 = (None, trees2)"
    and "trees2 = (case trees2opt of None \<Rightarrow> trees1 | Some t \<Rightarrow> t)"
  shows "(twoterminals alen anodes trees2 contentwordprods lexicalprods = Inr candidates \<longrightarrow>
       (\<forall>m \<in> set candidates. 0 \<le> m \<and> m < int (clen trees2))) \<and>
     extractfragments junk yieldranges trees1 sents1 off end0 labels trees2opt sents2 approx
       discontinuous complement True adjacent \<noteq> Inl (illegal_index m)"
proof -
  from indextrees_below [OF assms(1)]
  have mb: "members_below (treeswithprod trees2) (clen trees2)" by simp
  have one: "twoterminals alen anodes trees2 contentwordprods lexicalprods = Inr candidates \<longrightarrow>
       (\<forall>m \<in> set candidates. 0 \<le> m \<and> m < int (clen trees2))"
    using twoterminals_below [OF _ mb] by blast
  have two: "extractfragments junk yieldranges trees1 sents1 off end0 labels trees2opt sents2
       approx discontinuous complement True adjacent \<noteq> Inl (illegal_index m)"
  proof
    assume bad: "extractfragments junk yieldranges trees1 sents1 off end0 labels trees2opt sents2
       approx discontinuous complement True adjacent = Inl (illegal_index m)"
    define SLOTS where "SLOTS = BITNSLOTS (max (maxnodes trees1) (maxnodes trees2) + 1)"
    define step where "step = extractfragments_tree junk yieldranges trees1 sents1 labels trees2
       (sents2 = None) approx discontinuous complement True adjacent
       (matching_labels contentword labels) (matching_labels lexical labels) 2 SLOTS"
    from bad have "extractfragments_loop step (work_range trees1 off end0)
        ([], malloc junk (maxnodes trees2 * SLOTS), malloc junk (SLOTS + 2))
      = Inl (illegal_index m)"
      unfolding extractfragments_def Let_def assms(2) [symmetric] SLOTS_def [symmetric] step_def
      by (auto split: sum.splits prod.splits)
    then have "other_error (illegal_index m)"
    proof (rule extractfragments_loop_error)
      fix n st e assume "step n st = Inl e"
      then show "other_error e"
        unfolding step_def by (rule extractfragments_tree_error [OF _ mb])
    qed
    from other_error_not_illegal [OF this, of m] show False by simp
  qed
  from one two show ?thesis by simp
qed


text \<open>
  An example treebank for the statements about the driver: twice the tree
  \<open>(S (NN x) (VBD y))\<close>, with the productions 0, 1 and 2.
\<close>

definition example_trees :: Ctrees where
  "example_trees =
     \<lparr>trees = [\<lparr>offset = 0, len = 3, root = 0\<rparr>, \<lparr>offset = 3, len = 3, root = 0\<rparr>],
      nodes = [\<lparr>prod = 0, left = 1, right = 2\<rparr>, \<lparr>prod = 1, left = - 1, right = - 1\<rparr>,
               \<lparr>prod = 2, left = - 2, right = - 1\<rparr>,
               \<lparr>prod = 0, left = 1, right = 2\<rparr>, \<lparr>prod = 1, left = - 1, right = - 1\<rparr>,
               \<lparr>prod = 2, left = - 2, right = - 1\<rparr>],
      clen = 2, cmax = 2, numnodes = 6, maxnodes = 3, nodesleft = 0, treeswithprod = []\<rparr>"

theorem twoterminals_index_legal_witness:
  "indextrees 3 example_trees =
     (None, example_trees\<lparr>treeswithprod := [[0, 1], [0, 1], [0, 1]]\<rparr>) \<and>
   twoterminals 3 (nodes example_trees) (example_trees\<lparr>treeswithprod := [[0, 1], [0, 1], [0, 1]]\<rparr>)
     [1, 2] [0, 1, 2] = Inr [0, 1] \<and>
   extractfragments (\<lambda>_. 0) (\<lambda>_. []) (example_trees\<lparr>treeswithprod := [[0, 1], [0, 1], [0, 1]]\<rparr>)
     [[Some ''x'', Some ''y''], [Some ''x'', Some ''y'']] 0 0 [''S'', ''NN'', ''VBD''] None None
     True False False True False
   = Inr [(Plain ''(S (NN x) (VBD y))'', Count 1)]"
proof -
  let ?t = "example_trees\<lparr>treeswithprod := [[0, 1], [0, 1], [0, 1]]\<rparr>"
  have i: "indextrees 3 example_trees = (None, ?t)"
    unfolding example_trees_def by code_simp
  have t: "twoterminals 3 (nodes example_trees) ?t [1, 2] [0, 1, 2] = Inr [0, 1]"
    unfolding example_trees_def by code_simp
  have e: "extractfragments (\<lambda>_. 0) (\<lambda>_. []) ?t
     [[Some ''x'', Some ''y''], [Some ''x'', Some ''y'']] 0 0 [''S'', ''NN'', ''VBD''] None None
     True False False True False
   = Inr [(Plain ''(S (NN x) (VBD y))'', Count 1)]"
    unfolding example_trees_def by code_simp
  have c: "?t = (case None of None \<Rightarrow> ?t | Some t \<Rightarrow> t)" by simp
  note th = twoterminals_index_legal [OF i c, of 3 "nodes example_trees" "[1, 2]" "[0, 1, 2]"
      "[0, 1]" "\<lambda>_. 0" "\<lambda>_. []" "[[Some ''x'', Some ''y''], [Some ''x'', Some ''y'']]" 0 0
      "[''S'', ''NN'', ''VBD'']" None True False False False 0]
  from th t have "\<forall>m \<in> set [0, 1]. 0 \<le> m \<and> m < int (clen ?t)" by blast
  with i t e show ?thesis by simp
qed

subsection \<open>Claim C10\<close>

text \<open>
  C10 as stated does not hold: the clamp bounds the loop from above only. With
  \<open>offset = -1\<close> the loop starts at the tree index \<open>-1\<close>, and the read of \<open>ctrees1[-1]\<close> lies
  before the array.
\<close>

theorem work_range_negative_offset:
  "work_range example_trees (- 1) 0 = [- 1, 0, 1] \<and>
   rd (trees example_trees) (- 1) = None \<and>
   extractfragments (\<lambda>_. 0) (\<lambda>_. []) example_trees
     [[Some ''x'', Some ''y''], [Some ''x'', Some ''y'']] (- 1) 0 [''S'', ''NN'', ''VBD''] None None
     True False False False False = Inl MemoryFault"
  unfolding example_trees_def by code_simp

text \<open>
  C10, amended. With \<open>end = 0\<close>, and with any \<open>end\<close> greater than \<open>trees1.len\<close>, the loop runs
  over the tree indices from \<open>offset\<close> up to \<open>trees1.len - 1\<close>; and when \<open>offset\<close> is not
  negative, every index of the loop lies in \<open>[0, trees1.len)\<close>, whatever \<open>end\<close> is, and is a
  position of the array of trees.
\<close>

theorem work_range_within:
  "work_range trees1 off 0 = [off..int (clen trees1) - 1] \<and>
   (int (clen trees1) < end0 \<longrightarrow> work_range trees1 off end0 = [off..int (clen trees1) - 1]) \<and>
   (0 \<le> off \<longrightarrow>
      (\<forall>n \<in> set (work_range trees1 off end0). 0 \<le> n \<and> n < int (clen trees1) \<and>
         (arena_ok trees1 \<longrightarrow> rd (trees trees1) n = Some (trees trees1 ! nat n))))"
  by (auto simp: work_range_def rd_def arena_ok_def split: if_splits)

theorem work_range_within_witness:
  "work_range example_trees 0 0 = [0, 1] \<and> work_range example_trees 1 7 = [1] \<and>
   work_range example_trees 0 1 = [0] \<and>
   rd (trees example_trees) 1 = Some \<lparr>offset = 3, len = 3, root = 0\<rparr>"
proof -
  have ok: "arena_ok example_trees" by (simp add: example_trees_def arena_ok_def)
  have u: "[0..int (clen example_trees) - 1] = [0, 1]" "[1..int (clen example_trees) - 1] = [1]"
    unfolding example_trees_def by code_simp+
  have r: "work_range example_trees 0 1 = [0]"
    unfolding example_trees_def by code_simp
  note a = work_range_within [of example_trees 0 0]
  note b = work_range_within [of example_trees 1 7]
  from a u have 1: "work_range example_trees 0 0 = [0, 1]" by simp
  from b u have 2: "work_range example_trees 1 7 = [1]" by (simp add: example_trees_def)
  from b 2 ok have "rd (trees example_trees) 1 = Some (trees example_trees ! nat 1)" by simp
  then have 3: "rd (trees example_trees) 1 = Some \<lparr>offset = 3, len = 3, root = 0\<rparr>"
    by (simp add: example_trees_def)
  from 1 2 3 r show ?thesis by simp
qed

section \<open>One extraction per node pair\<close>

subsection \<open>Claim C3\<close>

text \<open>
  The trees that the statements below are about. The children of a node lie in the tree,
  and a rank that falls from a node to its children excludes cycles. Nodes with the same
  production have the same shape: both are terminals or neither is, and of two non-terminals
  both are unary or neither is. The field \<open>right\<close> of a terminal is never written by \<open>add\<close>
  and is not looked at.
\<close>

definition wf_children :: "Node list \<Rightarrow> nat \<Rightarrow> (nat \<Rightarrow> nat) \<Rightarrow> bool" where
  "wf_children t n rank =
     (\<forall>k<n. left (t ! k) \<ge> 0 \<longrightarrow>
        nat (left (t ! k)) < n \<and> rank (nat (left (t ! k))) < rank k \<and>
        (right (t ! k) \<ge> 0 \<longrightarrow>
           nat (right (t ! k)) < n \<and> rank (nat (right (t ! k))) < rank k))"

definition same_shape :: "Node list \<Rightarrow> Node list \<Rightarrow> nat \<Rightarrow> nat \<Rightarrow> bool" where
  "same_shape a b alen blen =
     (\<forall>i<alen. \<forall>j<blen. prod (a ! i) = prod (b ! j) \<longrightarrow>
        ((left (a ! i) < 0) = (left (b ! j) < 0)) \<and>
        (0 \<le> left (a ! i) \<longrightarrow> ((right (a ! i) < 0) = (right (b ! j) < 0))))"

text \<open>Every bit of the matrix stands for a pair of nodes with the same production.\<close>

definition bits_ok :: "Node list \<Rightarrow> Node list \<Rightarrow> nat \<Rightarrow> nat \<Rightarrow> nat \<Rightarrow> bitset \<Rightarrow> bool" where
  "bits_ok a b alen blen SLOTS m =
     (\<forall>j<blen. \<forall>i<64 * SLOTS. cell m SLOTS j i \<longrightarrow> i < alen \<and> prod (a ! i) = prod (b ! j))"

definition cells_le :: "nat \<Rightarrow> nat \<Rightarrow> bitset \<Rightarrow> bitset \<Rightarrow> bool" where
  "cells_le blen SLOTS m' m =
     (length m' = length m \<and> (\<forall>j<blen. \<forall>i<64 * SLOTS. cell m' SLOTS j i \<longrightarrow> cell m SLOTS j i))"

definition rows_kept :: "(nat \<Rightarrow> nat) \<Rightarrow> nat \<Rightarrow> nat \<Rightarrow> nat \<Rightarrow> bitset \<Rightarrow> bitset \<Rightarrow> bool" where
  "rows_kept rank blen SLOTS r m' m =
     (\<forall>j<blen. \<forall>i<64 * SLOTS. r \<le> rank j \<longrightarrow> cell m' SLOTS j i = cell m SLOTS j i)"

definition ext_sizes ::
  "Node list \<Rightarrow> Node list \<Rightarrow> nat \<Rightarrow> nat \<Rightarrow> nat \<Rightarrow> (nat \<Rightarrow> nat) \<Rightarrow> (nat \<Rightarrow> nat) \<Rightarrow> bool" where
  "ext_sizes a b alen blen SLOTS ranka rankb =
     (alen \<le> length a \<and> blen \<le> length b \<and> alen \<le> 64 * SLOTS \<and>
      wf_children a alen ranka \<and> wf_children b blen rankb \<and> same_shape a b alen blen)"

lemma cells_le_refl: "cells_le blen SLOTS m m"
  by (simp add: cells_le_def)

lemma cells_le_trans:
  "cells_le blen SLOTS m2 m1 \<Longrightarrow> cells_le blen SLOTS m1 m \<Longrightarrow> cells_le blen SLOTS m2 m"
  by (simp add: cells_le_def)

lemma bits_ok_le:
  "bits_ok a b alen blen SLOTS m \<Longrightarrow> cells_le blen SLOTS m' m \<Longrightarrow> bits_ok a b alen blen SLOTS m'"
  by (simp add: bits_ok_def cells_le_def)

lemma CLEARBIT_cell:
  assumes "i < 64 * SLOTS" "(j + 1) * SLOTS \<le> length m"
  shows "\<exists>m'. CLEARBIT m (j * SLOTS) i = Some m' \<and> length m' = length m \<and>
    (\<forall>j' i'. i' < 64 * SLOTS \<longrightarrow> (j' + 1) * SLOTS \<le> length m \<longrightarrow>
       cell m' SLOTS j' i' = (\<not> (j' = j \<and> i' = i) \<and> cell m SLOTS j' i'))"
proof -
  let ?k = "j * SLOTS + i div 64"
  let ?m' = "m[?k := (m ! ?k) AND NOT (push_bit (i mod 64) 1)]"
  have k: "?k < length m" by (rule row_index_less [OF assms])
  then have s: "CLEARBIT m (j * SLOTS) i = Some ?m'" by (simp add: CLEARBIT_def)
  have "cell ?m' SLOTS j' i' = (\<not> (j' = j \<and> i' = i) \<and> cell m SLOTS j' i')"
    if h: "i' < 64 * SLOTS" "(j' + 1) * SLOTS \<le> length m" for j' i'
  proof (cases "j' * SLOTS + i' div 64 = ?k")
    case True
    with row_index_inj [OF h(1) assms(1)] have e: "j' = j" "i' div 64 = i div 64" by auto
    have "(i' = i) = (i' mod 64 = i mod 64)"
      using e(2) by (metis div_mult_mod_eq)
    then show ?thesis using True k e
      by (auto simp: cell_def bit_simps)
  next
    case False
    then have "\<not> (j' = j \<and> i' = i)" by auto
    with False show ?thesis by (auto simp: cell_def)
  qed
  with s show ?thesis by auto
qed

lemma SETBIT_result:
  assumes "i < 64 * SLOTS" "SLOTS \<le> length r"
  shows "\<exists>r'. SETBIT r 0 i = Some r' \<and> length r' = length r"
proof -
  from assms(1) have "i div 64 < SLOTS" by (simp add: div_less_iff_less_mult mult.commute)
  with assms(2) show ?thesis by (simp add: SETBIT_def)
qed


definition ext_post ::
  "(nat \<Rightarrow> nat) \<Rightarrow> nat \<Rightarrow> nat \<Rightarrow> bitset \<Rightarrow> nat \<Rightarrow> nat \<Rightarrow> bitset \<Rightarrow> bool" where
  "ext_post rankb blen SLOTS m nj ni m' =
     (cells_le blen SLOTS m' m \<and> \<not> cell m' SLOTS nj ni \<and>
      (\<forall>j'<blen. \<forall>i'<64 * SLOTS. rankb nj \<le> rankb j' \<longrightarrow> (j', i') \<noteq> (nj, ni) \<longrightarrow>
         cell m' SLOTS j' i' = cell m SLOTS j' i'))"

lemma ext_post_rows_kept:
  assumes "ext_post rankb blen SLOTS m nj ni m'" "rankb nj < r"
  shows "rows_kept rankb blen SLOTS r m' m"
  unfolding rows_kept_def
proof (intro allI impI)
  fix j i assume h: "j < blen" "i < 64 * SLOTS" "r \<le> rankb j"
  with assms(2) have "rankb nj \<le> rankb j" "j \<noteq> nj" by auto
  with assms(1) h show "cell m' SLOTS j i = cell m SLOTS j i"
    by (simp add: ext_post_def)
qed

lemma ext_post_step:
  assumes p: "ext_post rankb blen SLOTS m nj ni m1"
    and le: "cells_le blen SLOTS m2 m1"
    and rk: "rows_kept rankb blen SLOTS (rankb nj) m2 m1"
    and b: "nj < blen" "ni < 64 * SLOTS"
  shows "ext_post rankb blen SLOTS m nj ni m2"
proof -
  have a1: "cells_le blen SLOTS m2 m"
    using le p cells_le_trans unfolding ext_post_def by blast
  have "cell m2 SLOTS nj ni = cell m1 SLOTS nj ni"
    using rk b unfolding rows_kept_def by simp
  then have a2: "\<not> cell m2 SLOTS nj ni" using p by (simp add: ext_post_def)
  have a3: "cell m2 SLOTS j' i' = cell m SLOTS j' i'"
    if "j' < blen" "i' < 64 * SLOTS" "rankb nj \<le> rankb j'" "(j', i') \<noteq> (nj, ni)" for j' i'
  proof -
    have "cell m2 SLOTS j' i' = cell m1 SLOTS j' i'"
      using rk that(1,2,3) unfolding rows_kept_def by simp
    also have "\<dots> = cell m SLOTS j' i'"
      using p that unfolding ext_post_def by simp
    finally show ?thesis .
  qed
  show ?thesis unfolding ext_post_def using a1 a2 a3 by blast
qed

lemma extractat_total:
  assumes sz: "ext_sizes a b alen blen SLOTS ranka rankb"
  shows "bits_ok a b alen blen SLOTS m \<Longrightarrow> blen * SLOTS \<le> length m \<Longrightarrow> SLOTS \<le> length r \<Longrightarrow>
    0 \<le> i \<Longrightarrow> nat i < alen \<Longrightarrow> 0 \<le> j \<Longrightarrow> nat j < blen \<Longrightarrow>
    prod (a ! nat i) = prod (b ! nat j) \<Longrightarrow>
    \<exists>m' r' t. extractat m r a b i j SLOTS = Some (m', r', t) \<and> length r' = length r \<and>
      ext_post rankb blen SLOTS m (nat j) (nat i) m'"
proof (induction "rankb (nat j)" arbitrary: m r i j rule: less_induct)
  case less
  note bo = less.prems(1) and ml = less.prems(2) and rl = less.prems(3)
  note i0 = less.prems(4) and ia = less.prems(5) and j0 = less.prems(6) and jb = less.prems(7)
  note pe = less.prems(8)
  from sz have al: "alen \<le> length a" and bl: "blen \<le> length b" and aw: "alen \<le> 64 * SLOTS"
    and wa: "wf_children a alen ranka" and wb: "wf_children b blen rankb"
    and ss: "same_shape a b alen blen"
    by (simp_all add: ext_sizes_def)
  define ni where "ni = nat i"
  define nj where "nj = nat j"
  have ni: "ni < alen" "ni < 64 * SLOTS" using ia aw by (simp_all add: ni_def)
  have nj: "nj < blen" using jb by (simp add: nj_def)
  have rowj: "(nj + 1) * SLOTS \<le> length m" by (rule row_le [OF nj ml])
  from SETBIT_result [OF ni(2) rl] obtain r1 where
    r1: "SETBIT r 0 ni = Some r1" "length r1 = length r" by blast
  from CLEARBIT_cell [OF ni(2) rowj] obtain m1 where
    m1: "CLEARBIT m (nj * SLOTS) ni = Some m1" "length m1 = length m"
    and c1: "\<And>j' i'. i' < 64 * SLOTS \<Longrightarrow> (j' + 1) * SLOTS \<le> length m \<Longrightarrow>
       cell m1 SLOTS j' i' = (\<not> (j' = nj \<and> i' = ni) \<and> cell m SLOTS j' i')"
    by blast
  have c1': "cell m1 SLOTS j' i' = (\<not> (j' = nj \<and> i' = ni) \<and> cell m SLOTS j' i')"
    if "j' < blen" "i' < 64 * SLOTS" for j' i'
    using c1 [OF that(2) row_le [OF that(1) ml]] .
  have le1: "cells_le blen SLOTS m1 m" using m1(2) c1' by (simp add: cells_le_def)
  have p1: "ext_post rankb blen SLOTS m nj ni m1"
    using le1 c1' ni(2) nj by (simp add: ext_post_def)
  have bo1: "bits_ok a b alen blen SLOTS m1" by (rule bits_ok_le [OF bo le1])
  have ml1: "blen * SLOTS \<le> length m1" using ml m1(2) by simp
  have rda: "rd a i = Some (a ! ni)" using i0 ia al by (simp add: rd_def ni_def)
  have rdb: "rd b j = Some (b ! nj)" using j0 jb bl by (simp add: rd_def nj_def)
  have ixi: "ix i = Some ni" "ix j = Some nj" using i0 j0 by (simp_all add: ix_def ni_def nj_def)
  text \<open>The call for a child pair, made when its bit is set.\<close>
  have sub: "\<exists>m3 r3 t. TESTBIT m2 (nat cj * SLOTS) (nat ci) = Some c \<and>
      (if c then extractat m2 r2 a b ci cj SLOTS else Some (m2, r2, 0)) = Some (m3, r3, t) \<and>
      length r3 = length r2 \<and> cells_le blen SLOTS m3 m2 \<and>
      rows_kept rankb blen SLOTS (rankb nj) m3 m2"
    if h: "0 \<le> ci" "nat ci < alen" "0 \<le> cj" "nat cj < blen" "rankb (nat cj) < rankb nj"
      "bits_ok a b alen blen SLOTS m2" "blen * SLOTS \<le> length m2" "SLOTS \<le> length r2"
      "c = cell m2 SLOTS (nat cj) (nat ci)"
    for m2 r2 ci cj c
  proof -
    from h(2) aw have w: "nat ci < 64 * SLOTS" by simp
    have t: "TESTBIT m2 (nat cj * SLOTS) (nat ci) = Some c"
      using TESTBIT_cell [OF w row_le [OF h(4) h(7)]] h(9) by simp
    show ?thesis
    proof (cases c)
      case False
      with t show ?thesis by (simp add: cells_le_refl rows_kept_def)
    next
      case True
      with h(9) h(6) h(4) w have "prod (a ! nat ci) = prod (b ! nat cj)"
        by (simp add: bits_ok_def)
      from less.hyps [OF h(5) [unfolded nj_def] h(6,7,8,1,2,3,4) this]
      obtain m3 r3 t3 where e: "extractat m2 r2 a b ci cj SLOTS = Some (m3, r3, t3)"
        "length r3 = length r2" "ext_post rankb blen SLOTS m2 (nat cj) (nat ci) m3"
        by blast
      from ext_post_rows_kept [OF e(3) h(5)] e t True show ?thesis
        by (auto simp: ext_post_def)
    qed
  qed
  show ?case
  proof (cases "left (a ! ni) < 0")
    case True
    have "extractat m r a b i j SLOTS = Some (m1, r1, 1)"
      using ixi r1(1) m1(1) rda True by (subst extractat.simps) simp
    with r1(2) p1 show ?thesis by (simp add: ni_def nj_def)
  next
    case False
    from ss ni(1) nj pe have "((left (a ! ni) < 0) = (left (b ! nj) < 0)) \<and>
        (0 \<le> left (a ! ni) \<longrightarrow> ((right (a ! ni) < 0) = (right (b ! nj) < 0)))"
      unfolding same_shape_def ni_def nj_def by blast
    with False have shp: "(left (a ! ni) < 0) = (left (b ! nj) < 0)"
      "(right (a ! ni) < 0) = (right (b ! nj) < 0)"
      by simp_all
    from False wa ni(1) have la: "0 \<le> left (a ! ni)" "nat (left (a ! ni)) < alen"
      by (simp_all add: wf_children_def)
    from False shp wb nj have lb: "0 \<le> left (b ! nj)" "nat (left (b ! nj)) < blen"
      "rankb (nat (left (b ! nj))) < rankb nj"
      by (simp_all add: wf_children_def)
    from sub [OF la lb bo1 ml1 _ refl, of r1] rl r1(2) obtain m2 r2 t2 where
      s2: "TESTBIT m1 (nat (left (b ! nj)) * SLOTS) (nat (left (a ! ni))) =
             Some (cell m1 SLOTS (nat (left (b ! nj))) (nat (left (a ! ni))))"
      "(if cell m1 SLOTS (nat (left (b ! nj))) (nat (left (a ! ni)))
        then extractat m1 r1 a b (left (a ! ni)) (left (b ! nj)) SLOTS
        else Some (m1, r1, 0)) = Some (m2, r2, t2)"
      "length r2 = length r1" "cells_le blen SLOTS m2 m1"
      "rows_kept rankb blen SLOTS (rankb nj) m2 m1"
      by auto
    have ixl: "ix (left (a ! ni)) = Some (nat (left (a ! ni)))"
      "ix (left (b ! nj)) = Some (nat (left (b ! nj)))"
      using la(1) lb(1) by (simp_all add: ix_def)
    have p2: "ext_post rankb blen SLOTS m nj ni m2"
      by (rule ext_post_step [OF p1 s2(4,5) nj ni(2)])
    show ?thesis
    proof (cases "right (a ! ni) < 0")
      case True
      have "extractat m r a b i j SLOTS = Some (m2, r2, 0)"
        using ixi r1(1) m1(1) rda rdb False ixl s2(1,2) True
        by (subst extractat.simps) simp
      with r1(2) s2(3) p2 show ?thesis by (simp add: ni_def nj_def)
    next
      case nr: False
      from nr False wa ni(1) have ra: "0 \<le> right (a ! ni)" "nat (right (a ! ni)) < alen"
        by (simp_all add: wf_children_def)
      from nr False shp wb nj have rb: "0 \<le> right (b ! nj)" "nat (right (b ! nj)) < blen"
        "rankb (nat (right (b ! nj))) < rankb nj"
        by (simp_all add: wf_children_def)
      have bo2: "bits_ok a b alen blen SLOTS m2" by (rule bits_ok_le [OF bo1 s2(4)])
      have ml2: "blen * SLOTS \<le> length m2" using ml1 s2(4) by (simp add: cells_le_def)
      from sub [OF ra rb bo2 ml2 _ refl, of r2] rl r1(2) s2(3) obtain m3 r3 t3 where
        s3: "TESTBIT m2 (nat (right (b ! nj)) * SLOTS) (nat (right (a ! ni))) =
               Some (cell m2 SLOTS (nat (right (b ! nj))) (nat (right (a ! ni))))"
        "(if cell m2 SLOTS (nat (right (b ! nj))) (nat (right (a ! ni)))
          then extractat m2 r2 a b (right (a ! ni)) (right (b ! nj)) SLOTS
          else Some (m2, r2, 0)) = Some (m3, r3, t3)"
        "length r3 = length r2" "cells_le blen SLOTS m3 m2"
        "rows_kept rankb blen SLOTS (rankb nj) m3 m2"
        by auto
      have ixr: "ix (right (a ! ni)) = Some (nat (right (a ! ni)))"
        "ix (right (b ! nj)) = Some (nat (right (b ! nj)))"
        using ra(1) rb(1) by (simp_all add: ix_def)
      have p3: "ext_post rankb blen SLOTS m nj ni m3"
        by (rule ext_post_step [OF p2 s3(4,5) nj ni(2)])
      have "extractat m r a b i j SLOTS = Some (m3, r3, t2 + t3)"
        using ixi r1(1) m1(1) rda rdb False ixl s2(1,2) nr ixr s3(1,2)
        by (subst extractat.simps) simp
      with r1(2) s2(3) s3(3) p3 show ?thesis by (simp add: ni_def nj_def)
    qed
  qed
qed


lemma bit_ctz_props:
  assumes "cur \<noteq> 0"
  shows "bit_ctz cur < 64 \<and> bit cur (bit_ctz cur)"
proof -
  from assms obtain k where k: "bit cur k"
    by (auto simp: bit_eq_iff)
  then have "k < 64" by (auto dest: bit_imp_le_length)
  with k have "\<exists>x\<in>set [0..<64]. bit cur x" by auto
  then obtain c where c: "find (bit cur) [0..<64] = Some c"
    by (cases "find (bit cur) [0..<64]") (auto simp: find_None_iff)
  then have "c < 64 \<and> bit cur c"
    by (auto simp: find_Some_iff)
  with c show ?thesis by (simp add: bit_ctz_def)
qed

lemma bit_ctz_least:
  assumes "bit cur k"
  shows "bit_ctz cur \<le> k"
proof -
  from assms have k: "k < 64" by (auto dest: bit_imp_le_length)
  with assms have "\<exists>x\<in>set [0..<64]. bit cur x" by auto
  then obtain c where c: "find (bit cur) [0..<64] = Some c"
    by (cases "find (bit cur) [0..<64]") (auto simp: find_None_iff)
  have "c \<le> k"
  proof (rule ccontr)
    assume "\<not> c \<le> k"
    then have "k < c" by simp
    with c assms k show False
      by (auto simp: find_Some_iff)
  qed
  with c show ?thesis by (simp add: bit_ctz_def)
qed

lemma bit_drop_lowest:
  assumes "bit (cur :: 64 word) c"
  shows "bit (cur XOR push_bit c 1) k = (bit cur k \<and> k \<noteq> c)"
  using assms by (auto simp: bit_simps dest: bit_imp_le_length)

text \<open>
  What \<open>iteratesetbits\<close> needs and gives: the bits of \<open>cur\<close> are bits of word \<open>idx\<close> of the
  row and lie at or above the bound \<open>lb\<close>.
\<close>

definition cur_ok :: "bitset \<Rightarrow> nat \<Rightarrow> nat \<Rightarrow> 64 word \<Rightarrow> nat \<Rightarrow> nat \<Rightarrow> bool" where
  "cur_ok m SLOTS nj cur idx lb =
     (idx < SLOTS \<and> lb \<le> (idx + 1) * 64 \<and>
      (\<forall>k. bit cur k \<longrightarrow> cell m SLOTS nj (idx * 64 + k) \<and> lb \<le> idx * 64 + k))"

lemma cell_word:
  "k < 64 \<Longrightarrow> cell m SLOTS nj (idx * 64 + k) = bit (m ! (nj * SLOTS + idx)) k"
  by (simp add: cell_def)

lemma iteratesetbits_next:
  "(nj + 1) * SLOTS \<le> length m \<Longrightarrow> cur_ok m SLOTS nj cur idx lb \<Longrightarrow>
    \<exists>i' cur' idx'. iteratesetbits m (nj * SLOTS) SLOTS cur idx = Some (i', cur', idx') \<and>
      (i' = - 1 \<or> (0 \<le> i' \<and> nat i' < 64 * SLOTS \<and> lb \<le> nat i' \<and>
         nat i' div 64 = idx' \<and> cell m SLOTS nj (nat i') \<and>
         cur_ok m SLOTS nj cur' idx' (nat i' + 1)))"
proof (induction m "nj * SLOTS" SLOTS cur idx rule: iteratesetbits.induct)
  case (1 vec slots cur idx)
  note len = "1.prems"(1) and ok = "1.prems"(2)
  show ?case
  proof (cases "cur = 0")
    case True
    show ?thesis
    proof (cases "idx + 1 \<ge> slots")
      case True
      with \<open>cur = 0\<close> show ?thesis by (subst iteratesetbits.simps) simp
    next
      case False
      then have lt: "idx + 1 < slots" by simp
      then have "(idx + 1) div 1 < slots" by simp
      have "nj * slots + (idx + 1) < (nj + 1) * slots" using lt by simp
      with len have inb: "nj * slots + (idx + 1) < length vec" by simp
      have ok': "cur_ok vec slots nj (vec ! (nj * slots + (idx + 1))) (idx + 1) lb"
        unfolding cur_ok_def
      proof (intro conjI allI impI)
        show "idx + 1 < slots" by (rule lt)
        show "lb \<le> (idx + 1 + 1) * 64" using ok by (simp add: cur_ok_def)
      next
        fix k assume b: "bit (vec ! (nj * slots + (idx + 1))) k"
        then have "k < 64" by (auto dest: bit_imp_le_length)
        with b show "cell vec slots nj ((idx + 1) * 64 + k)"
          using cell_word [of k vec slots nj "idx + 1"] by simp
        show "lb \<le> (idx + 1) * 64 + k" using ok by (simp add: cur_ok_def)
      qed
      from "1.hyps" [OF True False inb len ok']
      show ?thesis using True False inb
        by (subst iteratesetbits.simps) simp
    qed
  next
    case False
    define c where "c = bit_ctz cur"
    from bit_ctz_props [OF False] have c: "c < 64" "bit cur c" by (simp_all add: c_def)
    from ok have idx: "idx < slots" by (simp add: cur_ok_def)
    from ok c(2) have cl: "cell vec slots nj (idx * 64 + c)" "lb \<le> idx * 64 + c"
      by (simp_all add: cur_ok_def)
    have e: "iteratesetbits vec (nj * slots) slots cur idx =
        Some (int (idx * 64 + c), cur XOR push_bit c 1, idx)"
      using False by (subst iteratesetbits.simps) (simp add: c_def)
    have r: "idx * 64 + c < 64 * slots" using idx c(1) by simp
    have d: "(idx * 64 + c) div 64 = idx" using c(1) by simp
    have ok': "cur_ok vec slots nj (cur XOR push_bit c 1) idx (idx * 64 + c + 1)"
      unfolding cur_ok_def
    proof (intro conjI allI impI)
      show "idx < slots" by (rule idx)
      show "idx * 64 + c + 1 \<le> (idx + 1) * 64" using c(1) by simp
    next
      fix k assume "bit (cur XOR push_bit c 1) k"
      then have b: "bit cur k" "k \<noteq> c" using bit_drop_lowest [OF c(2)] by simp_all
      from b(1) ok show "cell vec slots nj (idx * 64 + k)" by (simp add: cur_ok_def)
      from bit_ctz_least [OF b(1)] b(2) show "idx * 64 + c + 1 \<le> idx * 64 + k"
        by (simp add: c_def)
    qed
    have n: "nat (int (idx * 64 + c)) = idx * 64 + c" by (rule nat_int)
    have "0 \<le> int (idx * 64 + c) \<and> nat (int (idx * 64 + c)) < 64 * slots \<and>
        lb \<le> nat (int (idx * 64 + c)) \<and> nat (int (idx * 64 + c)) div 64 = idx \<and>
        cell vec slots nj (nat (int (idx * 64 + c))) \<and>
        cur_ok vec slots nj (cur XOR push_bit c 1) idx (nat (int (idx * 64 + c)) + 1)"
      unfolding n using r d cl ok' by simp
    then show ?thesis unfolding e by blast
  qed
qed


lemma tail_id_tail_word:
  assumes "0 \<le> i" "i < 4294967296"
  shows "tail_id (tail_word old r i) = i"
proof -
  have "take_bit 32 (tail_word old r i) = (take_bit 32 (word_of_int i) :: 64 word)"
    unfolding tail_word_def by (rule bit_eqI) (auto simp: bit_simps)
  then have "tail_id (tail_word old r i) = uint (take_bit 32 (word_of_int i :: 64 word))"
    by (simp add: tail_id_def)
  also have "\<dots> = take_bit 32 (take_bit 64 i)"
    by (simp only: unsigned_take_bit_eq uint_word_of_int_eq len_bit0 len_num1) simp
  also have "\<dots> = take_bit 32 i" by (simp add: take_bit_take_bit)
  also have "\<dots> = i" using assms by (intro take_bit_int_eq_self) simp_all
  finally show ?thesis .
qed

lemma tail_root_tail_word:
  assumes "- 32768 \<le> r" "r \<le> 32767"
  shows "tail_root (tail_word old r i) = r"
proof -
  have "(ucast (drop_bit 32 (tail_word old r i)) :: 16 word) = word_of_int r"
    unfolding tail_word_def by (rule bit_eqI) (auto simp: bit_simps)
  then have "tail_root (tail_word old r i) = sint (word_of_int r :: 16 word)"
    by (simp add: tail_root_def)
  also have "\<dots> = signed_take_bit 15 r"
    by (simp add: sint_sbintrunc')
  also have "\<dots> = r" using assms by (intro signed_take_bit_int_eq_self) simp_all
  finally show ?thesis .
qed

lemma setrootid_wrap:
  assumes "SLOTS < length s" "- 32768 \<le> r" "r \<le> 32767" "0 \<le> n" "n < 4294967296"
  shows "\<exists>s' w. setrootid s r n SLOTS = Some s' \<and> wrap s' SLOTS = Some w \<and>
    length s' = length s \<and> w_root w = r \<and> w_id w = n \<and> w_bits w = take SLOTS s"
  using assms
  by (simp add: setrootid_def wrap_def tail_root_tail_word tail_id_tail_word)

text \<open>
  How a stretch of the extraction changes the matrix and its two logs: bits are only cleared,
  every node pair that was started had its bit set before and has it clear afterwards, and
  the wrappers added belong, in this order, to some of the node pairs started, one to one.
\<close>

definition phase ::
  "nat \<Rightarrow> nat \<Rightarrow> int \<Rightarrow> bitset \<Rightarrow> wrapped list \<Rightarrow> (int \<times> int) list
    \<Rightarrow> bitset \<Rightarrow> wrapped list \<Rightarrow> (int \<times> int) list \<Rightarrow> bool" where
  "phase blen SLOTS n m adds starts m' adds' starts' =
     (cells_le blen SLOTS m' m \<and>
      (\<exists>new nadds sub. starts' = starts @ new \<and> adds' = adds @ nadds \<and> distinct new \<and>
         subseq sub new \<and> list_all2 (\<lambda>w p. w_root w = fst p \<and> w_id w = n) nadds sub \<and>
         (\<forall>p\<in>set new. 0 \<le> fst p \<and> 0 \<le> snd p \<and> nat (snd p) < blen \<and>
            nat (fst p) < 64 * SLOTS \<and> cell m SLOTS (nat (snd p)) (nat (fst p)) \<and>
            \<not> cell m' SLOTS (nat (snd p)) (nat (fst p)))))"

lemma phase_refl: "phase blen SLOTS n m adds starts m adds starts"
proof -
  have "starts = starts @ [] \<and> adds = adds @ [] \<and> distinct ([] :: (int \<times> int) list) \<and>
     subseq [] ([] :: (int \<times> int) list) \<and>
     list_all2 (\<lambda>w p. w_root w = fst p \<and> w_id w = n) [] ([] :: (int \<times> int) list) \<and>
     (\<forall>p\<in>set ([] :: (int \<times> int) list). 0 \<le> fst p \<and> 0 \<le> snd p \<and> nat (snd p) < blen \<and>
            nat (fst p) < 64 * SLOTS \<and> cell m SLOTS (nat (snd p)) (nat (fst p)) \<and>
            \<not> cell m SLOTS (nat (snd p)) (nat (fst p)))"
    by simp
  then show ?thesis unfolding phase_def using cells_le_refl by blast
qed

lemma phase_trans:
  assumes p1: "phase blen SLOTS n m a0 s0 m1 a1 s1"
    and p2: "phase blen SLOTS n m1 a1 s1 m2 a2 s2"
  shows "phase blen SLOTS n m a0 s0 m2 a2 s2"
proof -
  from p1 obtain new1 na1 sub1 where 1: "cells_le blen SLOTS m1 m" "s1 = s0 @ new1"
    "a1 = a0 @ na1" "distinct new1" "subseq sub1 new1"
    "list_all2 (\<lambda>w p. w_root w = fst p \<and> w_id w = n) na1 sub1"
    and e1: "\<And>p. p \<in> set new1 \<Longrightarrow> 0 \<le> fst p \<and> 0 \<le> snd p \<and> nat (snd p) < blen \<and>
            nat (fst p) < 64 * SLOTS \<and> cell m SLOTS (nat (snd p)) (nat (fst p)) \<and>
            \<not> cell m1 SLOTS (nat (snd p)) (nat (fst p))"
    unfolding phase_def by blast
  from p2 obtain new2 na2 sub2 where 2: "cells_le blen SLOTS m2 m1" "s2 = s1 @ new2"
    "a2 = a1 @ na2" "distinct new2" "subseq sub2 new2"
    "list_all2 (\<lambda>w p. w_root w = fst p \<and> w_id w = n) na2 sub2"
    and e2: "\<And>p. p \<in> set new2 \<Longrightarrow> 0 \<le> fst p \<and> 0 \<le> snd p \<and> nat (snd p) < blen \<and>
            nat (fst p) < 64 * SLOTS \<and> cell m1 SLOTS (nat (snd p)) (nat (fst p)) \<and>
            \<not> cell m2 SLOTS (nat (snd p)) (nat (fst p))"
    unfolding phase_def by blast
  have le: "cells_le blen SLOTS m2 m" by (rule cells_le_trans [OF 2(1) 1(1)])
  have dj: "set new1 \<inter> set new2 = {}" using e1 e2 by blast
  have d: "distinct (new1 @ new2)" using 1(4) 2(4) dj by simp
  have sb: "subseq (sub1 @ sub2) (new1 @ new2)"
    by (rule list_emb_append_mono [OF 1(5) 2(5)])
  have la: "list_all2 (\<lambda>w p. w_root w = fst p \<and> w_id w = n) (na1 @ na2) (sub1 @ sub2)"
    by (rule list_all2_appendI [OF 1(6) 2(6)])
  have e: "0 \<le> fst p \<and> 0 \<le> snd p \<and> nat (snd p) < blen \<and>
            nat (fst p) < 64 * SLOTS \<and> cell m SLOTS (nat (snd p)) (nat (fst p)) \<and>
            \<not> cell m2 SLOTS (nat (snd p)) (nat (fst p))"
    if "p \<in> set (new1 @ new2)" for p
  proof (cases "p \<in> set new1")
    case True
    from e1 [OF True] 2(1) show ?thesis unfolding cells_le_def by blast
  next
    case False
    with that have "p \<in> set new2" by simp
    from e2 [OF this] 1(1) show ?thesis unfolding cells_le_def by blast
  qed
  have "s2 = s0 @ (new1 @ new2)" "a2 = a0 @ (na1 @ na2)" using 1(2,3) 2(2,3) by simp_all
  with le d sb la e show ?thesis unfolding phase_def by blast
qed

lemma phase_step:
  assumes "ext_post rankb blen SLOTS m (nat j) (nat i) m1" "0 \<le> i" "0 \<le> j" "nat j < blen"
    "nat i < 64 * SLOTS" "cell m SLOTS (nat j) (nat i)"
    "adds' = adds \<or> (adds' = adds @ [w] \<and> w_root w = i \<and> w_id w = n)"
  shows "phase blen SLOTS n m adds starts m1 adds' (starts @ [(i, j)])"
proof -
  from assms(7) obtain na sub where na: "adds' = adds @ na" "subseq sub [(i, j)]"
    "list_all2 (\<lambda>w p. w_root w = fst p \<and> w_id w = n) na sub"
  proof
    assume "adds' = adds"
    then have "adds' = adds @ []" "subseq [] [(i, j)]"
      "list_all2 (\<lambda>w p. w_root w = fst p \<and> w_id w = n) [] ([] :: (int \<times> int) list)"
      by simp_all
    then show ?thesis by (rule that)
  next
    assume "adds' = adds @ [w] \<and> w_root w = i \<and> w_id w = n"
    then have "adds' = adds @ [w]" "subseq [(i, j)] [(i, j)]"
      "list_all2 (\<lambda>w p. w_root w = fst p \<and> w_id w = n) [w] [(i, j)]"
      by simp_all
    then show ?thesis by (rule that)
  qed
  have "starts @ [(i, j)] = starts @ [(i, j)] \<and> adds' = adds @ na \<and> distinct [(i, j)] \<and>
         subseq sub [(i, j)] \<and> list_all2 (\<lambda>w p. w_root w = fst p \<and> w_id w = n) na sub \<and>
         (\<forall>p\<in>set [(i, j)]. 0 \<le> fst p \<and> 0 \<le> snd p \<and> nat (snd p) < blen \<and>
            nat (fst p) < 64 * SLOTS \<and> cell m SLOTS (nat (snd p)) (nat (fst p)) \<and>
            \<not> cell m1 SLOTS (nat (snd p)) (nat (fst p)))"
    using assms(1-6) na by (simp add: ext_post_def)
  moreover have "cells_le blen SLOTS m1 m" using assms(1) by (simp add: ext_post_def)
  ultimately show ?thesis unfolding phase_def by blast
qed

lemma cur_ok_after:
  assumes ok: "cur_ok m SLOTS nj cur idx (ni + 1)"
    and p: "ext_post rankb blen SLOTS m nj ni m1" and nj: "nj < blen"
  shows "cur_ok m1 SLOTS nj cur idx (ni + 1)"
  unfolding cur_ok_def
proof (intro conjI allI impI)
  from ok show idx: "idx < SLOTS" and "ni + 1 \<le> (idx + 1) * 64" by (simp_all add: cur_ok_def)
  fix k assume b: "bit cur k"
  then have k: "k < 64" by (auto dest: bit_imp_le_length)
  from b ok have c: "cell m SLOTS nj (idx * 64 + k)" and g: "ni + 1 \<le> idx * 64 + k"
    by (simp_all add: cur_ok_def)
  show "ni + 1 \<le> idx * 64 + k" by (rule g)
  have r: "idx * 64 + k < 64 * SLOTS" using idx k by simp
  have "(nj, idx * 64 + k) \<noteq> (nj, ni)" using g by simp
  with p nj r have "cell m1 SLOTS nj (idx * 64 + k) = cell m SLOTS nj (idx * 64 + k)"
    unfolding ext_post_def by blast
  with c show "cell m1 SLOTS nj (idx * 64 + k)" by simp
qed

lemma extractbitsets_loop_end:
  "extractbitsets_loop m scratch a b j n minterms SLOTS cur idx (- 1) adds starts =
     Some (m, scratch, adds, starts)"
  by (subst extractbitsets_loop.simps) simp

lemma extractbitsets_loop_total:
  assumes sz: "ext_sizes a b alen blen SLOTS ranka rankb"
    and j: "0 \<le> j" "nat j < blen"
    and sh: "alen \<le> 32767" and n: "0 \<le> n" "n < 4294967296"
  shows "bits_ok a b alen blen SLOTS m \<Longrightarrow> blen * SLOTS \<le> length m \<Longrightarrow>
    SLOTS < length scratch \<Longrightarrow>
    i = - 1 \<or> (0 \<le> i \<and> nat i < 64 * SLOTS \<and> cell m SLOTS (nat j) (nat i) \<and>
       cur_ok m SLOTS (nat j) cur idx (nat i + 1)) \<Longrightarrow>
    \<exists>m' s' adds' starts'.
      extractbitsets_loop m scratch a b j n minterms SLOTS cur idx i adds starts =
        Some (m', s', adds', starts') \<and>
      length s' = length scratch \<and> phase blen SLOTS n m adds starts m' adds' starts'"
proof (induction "64 * SLOTS - nat i" arbitrary: m scratch cur idx i adds starts
    rule: less_induct)
  case less
  note bo = less.prems(1) and ml = less.prems(2) and sl = less.prems(3) and inv = less.prems(4)
  show ?case
  proof (cases "i = - 1")
    case True
    then show ?thesis
      using extractbitsets_loop_end [of m scratch a b j n minterms SLOTS cur idx adds starts]
      by (simp add: phase_refl)
  next
    case False
    with inv have i: "0 \<le> i" "nat i < 64 * SLOTS" "cell m SLOTS (nat j) (nat i)"
      and ok: "cur_ok m SLOTS (nat j) cur idx (nat i + 1)"
      by simp_all
    from bo j(2) i(2,3) have ia: "nat i < alen" and pe: "prod (a ! nat i) = prod (b ! nat j)"
      by (simp_all add: bits_ok_def)
    define s0 where "s0 = replicate SLOTS 0 @ drop SLOTS scratch"
    have ms: "memset0 scratch SLOTS = Some s0" "length s0 = length scratch" "SLOTS \<le> length s0"
      using sl by (simp_all add: memset0_def s0_def)
    from extractat_total [OF sz bo ml ms(3) i(1) ia j pe] obtain m1 s1 t where
      e: "extractat m s0 a b i j SLOTS = Some (m1, s1, t)" "length s1 = length s0"
      "ext_post rankb blen SLOTS m (nat j) (nat i) m1"
      by blast
    have le1: "cells_le blen SLOTS m1 m" using e(3) by (simp add: ext_post_def)
    have bo1: "bits_ok a b alen blen SLOTS m1" by (rule bits_ok_le [OF bo le1])
    have ml1: "blen * SLOTS \<le> length m1" using ml le1 by (simp add: cells_le_def)
    have ok1: "cur_ok m1 SLOTS (nat j) cur idx (nat i + 1)"
      by (rule cur_ok_after [OF ok e(3) j(2)])
    from iteratesetbits_next [OF row_le [OF j(2) ml1] ok1] obtain i' cur' idx' where
      it: "iteratesetbits m1 (nat j * SLOTS) SLOTS cur idx = Some (i', cur', idx')"
      and nx: "i' = - 1 \<or> (0 \<le> i' \<and> nat i' < 64 * SLOTS \<and> nat i + 1 \<le> nat i' \<and>
         nat i' div 64 = idx' \<and> cell m1 SLOTS (nat j) (nat i') \<and>
         cur_ok m1 SLOTS (nat j) cur' idx' (nat i' + 1))"
      by blast
    have sl1: "SLOTS < length s1" using e(2) ms(2) sl by simp
    have ir: "- 32768 \<le> i" "i \<le> 32767" using i(1) ia sh by simp_all
    from setrootid_wrap [OF sl1 ir n] obtain s2 w where
      w: "setrootid s1 i n SLOTS = Some s2" "wrap s2 SLOTS = Some w" "length s2 = length s1"
      "w_root w = i" "w_id w = n"
      by blast
    define s3 where "s3 = (if t \<ge> minterms then s2 else s1)"
    define adds1 where "adds1 = (if t \<ge> minterms then adds @ [w] else adds)"
    have ad: "(if t \<ge> minterms then do {
             scratch \<leftarrow> setrootid s1 i n SLOTS;
             w \<leftarrow> wrap scratch SLOTS;
             Some (scratch, adds @ [w])
           }
           else Some (s1, adds)) = Some (s3, adds1)"
      using w(1,2) by (simp add: s3_def adds1_def)
    have st: "phase blen SLOTS n m adds starts m1 adds1 (starts @ [(i, j)])"
      by (rule phase_step [OF e(3) i(1) j i(2,3), where w = w])
        (simp add: adds1_def w(4,5))
    have sl3: "SLOTS < length s3" "length s3 = length scratch"
      using sl1 w(3) e(2) ms(2) by (simp_all add: s3_def)
    have "\<exists>m' s' adds' starts'.
      extractbitsets_loop m1 s3 a b j n minterms SLOTS cur' idx' i' adds1 (starts @ [(i, j)]) =
        Some (m', s', adds', starts') \<and>
      length s' = length s3 \<and> phase blen SLOTS n m1 adds1 (starts @ [(i, j)]) m' adds' starts'"
    proof (cases "i' = - 1")
      case True
      then show ?thesis
        using extractbitsets_loop_end
          [of m1 s3 a b j n minterms SLOTS cur' idx' adds1 "starts @ [(i, j)]"]
        by (simp add: phase_refl)
    next
      case False
      with nx have n2: "nat i' < 64 * SLOTS" "nat i + 1 \<le> nat i'" by simp_all
      then have "64 * SLOTS - nat i' < 64 * SLOTS - nat i" by simp
      from less.hyps [OF this bo1 ml1 sl3(1)] nx show ?thesis by blast
    qed
    then obtain m' s' adds' starts' where
      r: "extractbitsets_loop m1 s3 a b j n minterms SLOTS cur' idx' i' adds1 (starts @ [(i, j)]) =
        Some (m', s', adds', starts')"
      "length s' = length s3" "phase blen SLOTS n m1 adds1 (starts @ [(i, j)]) m' adds' starts'"
      by blast
    have "extractbitsets_loop m scratch a b j n minterms SLOTS cur idx i adds starts =
        Some (m', s', adds', starts')"
      using False ms(1) e(1) j(1) it r(1)
      by (subst extractbitsets_loop.simps) (simp add: ix_def ad)
    moreover have "length s' = length scratch" using r(2) sl3(2) by simp
    moreover have "phase blen SLOTS n m adds starts m' adds' starts'"
      by (rule phase_trans [OF st r(3)])
    ultimately show ?thesis by blast
  qed
qed

lemma extractbitsets_total:
  assumes sz: "ext_sizes a b alen blen SLOTS ranka rankb" and sl0: "0 < SLOTS"
    and sh: "alen \<le> 32767" and n: "0 \<le> n" "n < 4294967296"
  shows "bits_ok a b alen blen SLOTS m \<Longrightarrow> blen * SLOTS \<le> length m \<Longrightarrow>
    SLOTS < length scratch \<Longrightarrow> 0 \<le> j \<Longrightarrow> nat j < blen \<Longrightarrow>
    \<exists>m' s' adds' starts'.
      extractbitsets m a b j n minterms scratch SLOTS adds starts =
        Some (m', s', adds', starts') \<and>
      length s' = length scratch \<and> phase blen SLOTS n m adds starts m' adds' starts'"
proof (induction "rankb (nat j)" arbitrary: m scratch j adds starts rule: less_induct)
  case less
  note bo = less.prems(1) and ml = less.prems(2) and sl = less.prems(3)
    and j0 = less.prems(4) and jb = less.prems(5)
  from sz have bl: "blen \<le> length b" and wb: "wf_children b blen rankb"
    by (simp_all add: ext_sizes_def)
  define nj where "nj = nat j"
  have nj: "nj < blen" using jb by (simp add: nj_def)
  have row: "(nj + 1) * SLOTS \<le> length m" by (rule row_le [OF nj ml])
  then have inb: "nj * SLOTS < length m" using sl0 by simp
  have rdm: "rd m (int (nj * SLOTS)) = Some (m ! (nj * SLOTS))"
    unfolding rd_def using inb by (simp only: nat_int of_nat_0_le_iff) simp
  have ok0: "cur_ok m SLOTS nj (m ! (nj * SLOTS)) 0 0"
    unfolding cur_ok_def
  proof (intro conjI allI impI)
    fix k assume b: "bit (m ! (nj * SLOTS)) k"
    then have "k < 64" by (auto dest: bit_imp_le_length)
    with b show "cell m SLOTS nj (0 * 64 + k)" by (simp add: cell_def)
  qed (simp_all add: sl0)
  from iteratesetbits_next [OF row ok0] obtain i cur idx where
    it: "iteratesetbits m (nj * SLOTS) SLOTS (m ! (nj * SLOTS)) 0 = Some (i, cur, idx)"
    and nx: "i = - 1 \<or> (0 \<le> i \<and> nat i < 64 * SLOTS \<and> cell m SLOTS nj (nat i) \<and>
       cur_ok m SLOTS nj cur idx (nat i + 1))"
    by blast
  from extractbitsets_loop_total [OF sz j0 jb sh n bo ml sl nx [unfolded nj_def],
      of minterms adds starts]
  obtain m1 s1 a1 st1 where
    lp: "extractbitsets_loop m scratch a b j n minterms SLOTS cur idx i adds starts =
       Some (m1, s1, a1, st1)"
    "length s1 = length scratch" "phase blen SLOTS n m adds starts m1 a1 st1"
    by blast
  have le1: "cells_le blen SLOTS m1 m" using lp(3) by (simp add: phase_def)
  have bo1: "bits_ok a b alen blen SLOTS m1" by (rule bits_ok_le [OF bo le1])
  have ml1: "blen * SLOTS \<le> length m1" using ml le1 by (simp add: cells_le_def)
  have sl1: "SLOTS < length s1" using sl lp(2) by simp
  have rdb: "rd b j = Some (b ! nj)" using j0 jb bl by (simp add: rd_def nj_def)
  have ixj: "ix j = Some nj" using j0 by (simp add: ix_def nj_def)
  show ?case
  proof (cases "left (b ! nj) \<ge> 0")
    case False
    have "extractbitsets m a b j n minterms scratch SLOTS adds starts = Some (m1, s1, a1, st1)"
      using ixj rdm it lp(1) rdb False by (subst extractbitsets.simps) simp
    with lp(2,3) show ?thesis by simp
  next
    case True
    with wb nj have lb: "nat (left (b ! nj)) < blen" "rankb (nat (left (b ! nj))) < rankb (nat j)"
      by (simp_all add: wf_children_def nj_def)
    from less.hyps [OF lb(2) bo1 ml1 sl1 True lb(1), of a1 st1] obtain m2 s2 a2 st2 where
      l: "extractbitsets m1 a b (left (b ! nj)) n minterms s1 SLOTS a1 st1 =
         Some (m2, s2, a2, st2)"
      "length s2 = length s1" "phase blen SLOTS n m1 a1 st1 m2 a2 st2"
      by blast
    have p2: "phase blen SLOTS n m adds starts m2 a2 st2" by (rule phase_trans [OF lp(3) l(3)])
    have le2: "cells_le blen SLOTS m2 m" using p2 by (simp add: phase_def)
    have bo2: "bits_ok a b alen blen SLOTS m2" by (rule bits_ok_le [OF bo le2])
    have ml2: "blen * SLOTS \<le> length m2" using ml le2 by (simp add: cells_le_def)
    have sl2: "SLOTS < length s2" using sl1 l(2) by simp
    show ?thesis
    proof (cases "right (b ! nj) \<ge> 0")
      case False
      have "extractbitsets m a b j n minterms scratch SLOTS adds starts =
          Some (m2, s2, a2, st2)"
        using ixj rdm it lp(1) rdb True l(1) False by (subst extractbitsets.simps) simp
      with lp(2) l(2) p2 show ?thesis by simp
    next
      case r: True
      with True wb nj have rb: "nat (right (b ! nj)) < blen"
        "rankb (nat (right (b ! nj))) < rankb (nat j)"
        by (simp_all add: wf_children_def nj_def)
      from less.hyps [OF rb(2) bo2 ml2 sl2 r rb(1), of a2 st2] obtain m3 s3 a3 st3 where
        rr: "extractbitsets m2 a b (right (b ! nj)) n minterms s2 SLOTS a2 st2 =
           Some (m3, s3, a3, st3)"
        "length s3 = length s2" "phase blen SLOTS n m2 a2 st2 m3 a3 st3"
        by blast
      have "extractbitsets m a b j n minterms scratch SLOTS adds starts =
          Some (m3, s3, a3, st3)"
        using ixj rdm it lp(1) rdb True l(1) r rr(1) by (subst extractbitsets.simps) simp
      moreover have "phase blen SLOTS n m adds starts m3 a3 st3"
        by (rule phase_trans [OF p2 rr(3)])
      ultimately show ?thesis using lp(2) l(2) rr(2) by simp
    qed
  qed
qed

lemma rows_done_bits_ok:
  "rows_done a b alen blen SLOTS blen m \<Longrightarrow> bits_ok a b alen blen SLOTS m"
  by (simp add: rows_done_def bits_ok_def)


text \<open>
  C3 as it stands does not hold. Take for \<open>a\<close> the tree \<open>(T (NN x) (VBD y))\<close> and for \<open>b\<close> the
  tree \<open>(S (NN x) (NN x))\<close>: the terminal \<open>NN x\<close> is node 0 of \<open>a\<close> and nodes 1 and 2 of \<open>b\<close>.
  The extraction for this one pair of trees starts at the node pairs \<open>(0, 1)\<close> and \<open>(0, 2)\<close>,
  and both times it hands the same wrapped bitset, with the bit of node 0 and root 0, to
  \<open>results.add\<close>: the fragment bitset is produced twice for the pair. Clearing bit 0 of row
  1 does not touch row 2. That the set \<open>results\<close> ends up with one copy is the work of the
  Python set.
\<close>

definition example_pair :: Ctrees where
  "example_pair =
     \<lparr>trees = [\<lparr>offset = 0, len = 3, root = 2\<rparr>, \<lparr>offset = 3, len = 3, root = 0\<rparr>],
      nodes = [\<lparr>prod = 1, left = - 1, right = - 1\<rparr>, \<lparr>prod = 2, left = - 2, right = - 1\<rparr>,
               \<lparr>prod = 3, left = 0, right = 1\<rparr>,
               \<lparr>prod = 0, left = 1, right = 2\<rparr>, \<lparr>prod = 1, left = - 1, right = - 1\<rparr>,
               \<lparr>prod = 1, left = - 2, right = - 1\<rparr>],
      clen = 2, cmax = 2, numnodes = 6, maxnodes = 3, nodesleft = 0, treeswithprod = []\<rparr>"

theorem extractfrompair_same_bitset_twice:
  "extractfrompair_bitsets \<lparr>offset = 0, len = 3, root = 2\<rparr> (nodes example_pair) example_pair
       0 1 0 [7, 7, 7] [7, 7, 7] 1 =
     Some ([0, 0, 0], [1, 0, 7],
       [\<lparr>w_bits = [1], w_id = 0, w_root = 0\<rparr>, \<lparr>w_bits = [1], w_id = 0, w_root = 0\<rparr>],
       [(0, 1), (0, 2)])"
  unfolding example_pair_def by code_simp

text \<open>
  C3, amended. Let \<open>a\<close> and \<open>b\<close> be the two trees of one call of \<open>extractfrompair\<close>: sorted by
  production, their child indices inside the tree and without cycles, nodes with the same
  production of the same shape, and the buffers large enough. Then the extraction returns,
  and no node pair \<open>(i, j)\<close> is started twice: the list \<open>starts\<close> of the pairs from which the
  loop of \<open>extractbitsets\<close> called \<open>extractat\<close> has no repetition, because \<open>extractat\<close> clears bit
  \<open>i\<close> of row \<open>j\<close> and the loop only starts from bits that are still set. Every started pair
  is a pair of nodes with the same production. At most one fragment is produced per node
  pair: the wrappers handed to \<open>results.add\<close> belong, in their order, to different started
  pairs \<open>(i, j)\<close> (the list \<open>sub\<close>), each with root \<open>i\<close> and tree number \<open>n\<close>. Wrappers of
  different node pairs can be equal; the set that \<open>extractfrompair\<close> returns is \<open>inter\<close> with
  the wrappers added, each once.
\<close>

theorem extractfrompair_one_start_per_node_pair:
  assumes "rd (trees trees2) m = Some b"
    and "0 < len a" "0 < len b" "len a \<le> 32767"
    and "nat (len a) \<le> length anodes"
    and "nat (len b) \<le> length (drop (offset b) (nodes trees2))"
    and "sorted (map prod (take (nat (len a)) anodes))"
    and "sorted (map prod (take (nat (len b)) (drop (offset b) (nodes trees2))))"
    and "nat (len a) \<le> 64 * SLOTS" "nat (len b) * SLOTS \<le> length matrix"
    and "SLOTS < length scratch"
    and "wf_children anodes (nat (len a)) ranka"
    and "wf_children (drop (offset b) (nodes trees2)) (nat (len b)) rankb"
    and "same_shape anodes (drop (offset b) (nodes trees2)) (nat (len a)) (nat (len b))"
    and "0 \<le> root b" "root b < len b"
    and "0 \<le> n" "n < 4294967296"
  shows "\<exists>matrix' scratch' adds starts sub.
    extractfrompair_bitsets a anodes trees2 n m minterms matrix scratch SLOTS =
      Some (matrix', scratch', adds, starts) \<and>
    distinct starts \<and>
    (\<forall>p \<in> set starts. 0 \<le> fst p \<and> fst p < len a \<and> 0 \<le> snd p \<and> snd p < len b \<and>
       prod (anodes ! nat (fst p)) = prod (drop (offset b) (nodes trees2) ! nat (snd p))) \<and>
    subseq sub starts \<and>
    list_all2 (\<lambda>w p. w_root w = fst p \<and> w_id w = n) adds sub \<and>
    extractfrompair junk a anodes trees2 n m False intr minterms matrix scratch SLOTS =
      Some (fold set_add adds intr, matrix', scratch')"
proof -
  let ?b = "drop (offset b) (nodes trees2)"
  let ?al = "nat (len a)"
  let ?bl = "nat (len b)"
  let ?m0 = "replicate (?bl * SLOTS) 0 @ drop (?bl * SLOTS) matrix"
  have al0: "0 < ?al" and bl0: "0 < ?bl" using assms(2,3) by simp_all
  have sl0: "0 < SLOTS" using al0 assms(9) by (cases SLOTS) simp_all
  have ms: "(if len b < 0 then None else memset0 matrix (?bl * SLOTS)) = Some ?m0"
    "length ?m0 = length matrix"
    using assms(3,10) by (simp_all add: memset0_def)
  have z: "\<forall>k < ?bl * SLOTS. ?m0 ! k = 0" by (simp add: nth_append)
  from fasttreekernel_rows [OF al0 bl0 assms(5,6,7,8,9) _ z] ms(2) assms(10) obtain m1 where
    k: "fasttreekernel anodes ?b ?al ?bl ?m0 SLOTS = Some m1"
    "length m1 = length ?m0" "rows_done anodes ?b ?al ?bl SLOTS ?bl m1"
    by auto
  have bo: "bits_ok anodes ?b ?al ?bl SLOTS m1" by (rule rows_done_bits_ok [OF k(3)])
  have ml: "?bl * SLOTS \<le> length m1" using k(2) ms(2) assms(10) by simp
  have sz: "ext_sizes anodes ?b ?al ?bl SLOTS ranka rankb"
    using assms(5,6,9,12,13,14) by (simp add: ext_sizes_def)
  have sh: "?al \<le> 32767" using assms(4) by simp
  have rt: "nat (root b) < ?bl" using assms(15,16) by simp
  from extractbitsets_total [OF sz sl0 sh assms(17,18) bo ml assms(11,15) rt,
      of minterms "[]" "[]"]
  obtain m' s' adds starts where
    e: "extractbitsets m1 anodes ?b (root b) n minterms scratch SLOTS [] [] =
       Some (m', s', adds, starts)"
    and p: "phase ?bl SLOTS n m1 [] [] m' adds starts"
    by blast
  have r: "extractfrompair_bitsets a anodes trees2 n m minterms matrix scratch SLOTS =
      Some (m', s', adds, starts)"
    using assms(1) ms(1) k(1) e by (simp add: extractfrompair_bitsets_def)
  then have f: "extractfrompair junk a anodes trees2 n m False intr minterms matrix scratch SLOTS =
      Some (fold set_add adds intr, m', s')"
    by (simp add: extractfrompair_def)
  from p obtain sub where d: "distinct starts" and sb: "subseq sub starts"
    and la: "list_all2 (\<lambda>w p. w_root w = fst p \<and> w_id w = n) adds sub"
    and c: "\<And>p. p \<in> set starts \<Longrightarrow> 0 \<le> fst p \<and> 0 \<le> snd p \<and> nat (snd p) < ?bl \<and>
            nat (fst p) < 64 * SLOTS \<and> cell m1 SLOTS (nat (snd p)) (nat (fst p))"
    unfolding phase_def by auto
  have pr: "0 \<le> fst p \<and> fst p < len a \<and> 0 \<le> snd p \<and> snd p < len b \<and>
       prod (anodes ! nat (fst p)) = prod (?b ! nat (snd p))" if "p \<in> set starts" for p
  proof -
    from c [OF that] bo have "nat (fst p) < ?al \<and>
        prod (anodes ! nat (fst p)) = prod (?b ! nat (snd p))"
      unfolding bits_ok_def by blast
    with c [OF that] show ?thesis by simp
  qed
  from r d pr sb la f show ?thesis by blast
qed

theorem extractfrompair_one_start_per_node_pair_witness:
  "\<exists>matrix' scratch' adds starts sub.
    extractfrompair_bitsets \<lparr>offset = 0, len = 3, root = 0\<rparr> (nodes example_trees) example_trees
        0 1 0 [7, 7, 7] [7, 7, 7] 1 =
      Some (matrix', scratch', adds, starts) \<and>
    distinct starts \<and> subseq sub starts \<and>
    list_all2 (\<lambda>w p. w_root w = fst p \<and> w_id w = 0) adds sub \<and>
    extractfrompair (\<lambda>k. 0) \<lparr>offset = 0, len = 3, root = 0\<rparr> (nodes example_trees)
        example_trees 0 1 False [] 0 [7, 7, 7] [7, 7, 7] 1 =
      Some (fold set_add adds [], matrix', scratch') \<and>
    starts = [(0, 0)] \<and> adds = [\<lparr>w_bits = [7], w_id = 0, w_root = 0\<rparr>]"
proof -
  let ?a = "\<lparr>offset = 0, len = 3, root = 0\<rparr>"
  let ?b = "\<lparr>offset = 3, len = 3, root = 0\<rparr>"
  let ?rk = "\<lambda>k::nat. if k = 0 then 1 else (0::nat)"
  have lt3: "\<And>k::nat. (k < 3) = (k = 0 \<or> k = 1 \<or> k = 2)" by auto
  have 1: "rd (trees example_trees) 1 = Some ?b" by (simp add: example_trees_def rd_def)
  have wa: "wf_children (nodes example_trees) (nat (len ?a)) ?rk"
    by (auto simp: wf_children_def example_trees_def lt3)
  have wb: "wf_children (drop (offset ?b) (nodes example_trees)) (nat (len ?b)) ?rk"
    by (auto simp: wf_children_def example_trees_def lt3)
  have ss: "same_shape (nodes example_trees) (drop (offset ?b) (nodes example_trees))
      (nat (len ?a)) (nat (len ?b))"
    by (auto simp: same_shape_def example_trees_def lt3)
  have "\<exists>matrix' scratch' adds starts sub.
    extractfrompair_bitsets ?a (nodes example_trees) example_trees 0 1 0 [7, 7, 7] [7, 7, 7] 1 =
      Some (matrix', scratch', adds, starts) \<and>
    distinct starts \<and>
    (\<forall>p \<in> set starts. 0 \<le> fst p \<and> fst p < len ?a \<and> 0 \<le> snd p \<and> snd p < len ?b \<and>
       prod (nodes example_trees ! nat (fst p)) =
       prod (drop (offset ?b) (nodes example_trees) ! nat (snd p))) \<and>
    subseq sub starts \<and>
    list_all2 (\<lambda>w p. w_root w = fst p \<and> w_id w = 0) adds sub \<and>
    extractfrompair (\<lambda>k. 0) ?a (nodes example_trees) example_trees 0 1 False [] 0
        [7, 7, 7] [7, 7, 7] 1 =
      Some (fold set_add adds [], matrix', scratch')"
    by (rule extractfrompair_one_start_per_node_pair [OF 1 _ _ _ _ _ _ _ _ _ _ wa wb ss])
      (simp_all add: example_trees_def)
  moreover have "extractfrompair_bitsets ?a (nodes example_trees) example_trees
       0 1 0 [7, 7, 7] [7, 7, 7] 1 =
     Some ([0, 0, 0], [7, 0, 7], [\<lparr>w_bits = [7], w_id = 0, w_root = 0\<rparr>], [(0, 0)])"
    unfolding example_trees_def by code_simp
  ultimately show ?thesis by auto
qed

end
